theory Spec2Isabelle
  imports Main
begin

section \<open>Data model of \<open>frontend/app/index.tsx\<close>\<close>

text \<open>
  \<^verbatim>\<open>type Player = 'X' | 'O' | null\<close>: a mark or \<open>null\<close>, and \<open>None\<close> is \<open>null\<close>.
  A board is a JavaScript array of players, of any length as far as the type goes.
\<close>

datatype mark = MarkX | MarkO

type_synonym player = "mark option"

datatype gameMode = Menu | Pvp | Ai

datatype difficulty = Easy | Medium | Hard

text \<open>
  \<^verbatim>\<open>Player | 'draw' | null\<close>, the result type of \<open>checkWinner\<close> and the type of the
  \<open>winner\<close> state: \<open>Win m\<close> is the string of mark \<open>m\<close>, \<open>InProgress\<close> is \<open>null\<close>.
\<close>

datatype outcome = Win mark | Draw | InProgress

text \<open>
  Reading an array element: \<open>xs[i]\<close> is \<open>undefined\<close> out of range. \<open>undefined\<close> is falsy
  and is not \<open>=== null\<close>. The source raises no exception anywhere: every function below
  is total and returns a JavaScript value, \<open>undefined\<close> included.
\<close>

datatype 'a jsval = Undefined | Val 'a

definition elemAt :: "'a list \<Rightarrow> nat \<Rightarrow> 'a jsval" where
  "elemAt xs i = (if i < length xs then Val (xs ! i) else Undefined)"

text \<open>
  Scores are JavaScript numbers: the integers \<open>10 - depth\<close>, \<open>depth - 10\<close> and \<open>0\<close>, and the
  two infinities the search starts from. They are ordered as numbers are, so that
  \<open>Math.max\<close>, \<open>Math.min\<close> and \<open>>\<close> are \<open>max\<close>, \<open>min\<close> and \<open>>\<close> of the order.
\<close>

datatype score = NegInfinity | Score int | Infinity

instantiation score :: linorder
begin

fun less_eq_score :: "score \<Rightarrow> score \<Rightarrow> bool" where
  "less_eq_score NegInfinity _ = True"
| "less_eq_score _ Infinity = True"
| "less_eq_score (Score a) (Score b) = (a \<le> b)"
| "less_eq_score _ _ = False"

definition less_score :: "score \<Rightarrow> score \<Rightarrow> bool" where
  "less_score a b = (a \<le> b \<and> \<not> b \<le> a)"

instance
proof
  fix x y z :: score
  show "(x < y) = (x \<le> y \<and> \<not> y \<le> x)" by (simp add: less_score_def)
  show "x \<le> x" by (cases x) auto
  show "x \<le> y \<Longrightarrow> y \<le> z \<Longrightarrow> x \<le> z" by (cases x; cases y; cases z) auto
  show "x \<le> y \<Longrightarrow> y \<le> x \<Longrightarrow> x = y" by (cases x; cases y) auto
  show "x \<le> y \<or> y \<le> x" by (cases x; cases y) auto
qed

end

section \<open>The store of arrays\<close>

text \<open>
  The search writes into arrays in place, and \<open>getAIMove\<close> works on copies made by
  \<^verbatim>\<open>[...board]\<close>. Arrays therefore live in a store: \<open>heap s r\<close> is the array at reference
  \<open>r\<close>, and the references below \<open>fresh s\<close> are the allocated ones.
\<close>

record store =
  heap :: "nat \<Rightarrow> player list"
  fresh :: nat

text \<open>\<^verbatim>\<open>[...board]\<close>: a new array with the same elements.\<close>

definition copyArray :: "store \<Rightarrow> nat \<Rightarrow> store \<times> nat" where
  "copyArray s r =
     (s\<lparr> heap := (heap s)(fresh s := heap s r), fresh := Suc (fresh s) \<rparr>, fresh s)"

text \<open>
  \<^verbatim>\<open>board[i] = v\<close>. Every write of the source is at an index that was just read as
  \<open>null\<close>, hence in range, where the assignment replaces the element.
\<close>

definition setCell :: "store \<Rightarrow> nat \<Rightarrow> nat \<Rightarrow> player \<Rightarrow> store" where
  "setCell s r i v = s\<lparr> heap := (heap s)(r := (heap s r)[i := v]) \<rparr>"

section \<open>The outcome evaluator \<open>checkWinner\<close>\<close>

definition lines :: "(nat \<times> nat \<times> nat) list" where
  "lines = [(0, 1, 2), (3, 4, 5), (6, 7, 8),
            (0, 3, 6), (1, 4, 7), (2, 5, 8),
            (0, 4, 8), (2, 4, 6)]"

text \<open>
  The \<^verbatim>\<open>for (let line of lines)\<close> loop with its early return. The test
  \<^verbatim>\<open>board[a] && board[a] === board[b] && board[a] === board[c]\<close> needs \<open>board[a]\<close> truthy,
  that is a mark; the value returned is \<open>board[a]\<close>. \<open>None\<close> is "the loop fell through".
\<close>

fun checkLines :: "player list \<Rightarrow> (nat \<times> nat \<times> nat) list \<Rightarrow> mark option" where
  "checkLines board [] = None"
| "checkLines board ((a, b, c) # rest) =
     (case elemAt board a of
        Val (Some m) \<Rightarrow>
          (if elemAt board a = elemAt board b \<and> elemAt board a = elemAt board c
           then Some m else checkLines board rest)
      | _ \<Rightarrow> checkLines board rest)"

text \<open>\<open>checkWinner\<close> only reads its argument: its body has no assignment to an element.\<close>

definition checkWinner :: "player list \<Rightarrow> outcome" where
  "checkWinner board =
     (case checkLines board lines of
        Some m \<Rightarrow> Win m
      | None \<Rightarrow> (if list_all (\<lambda>cell. cell \<noteq> None) board then Draw else InProgress))"

section \<open>The move selector \<open>getAIMove\<close>\<close>

subsection \<open>The search \<open>minimax\<close>, in place on the array \<open>board\<close>\<close>

text \<open>
  \<open>minimax\<close> and its two \<^verbatim>\<open>for (let i = 0; i < 9; i++)\<close> loops. Each loop carries the
  index \<open>i\<close> and \<open>bestScore\<close>; a step writes the mark into \<open>board[i]\<close>, calls \<open>minimax\<close> on
  the same array, and writes \<open>null\<close> back.
\<close>

function minimax :: "store \<Rightarrow> nat \<Rightarrow> int \<Rightarrow> bool \<Rightarrow> store \<times> score"
  and maxLoop :: "store \<Rightarrow> nat \<Rightarrow> int \<Rightarrow> nat \<Rightarrow> score \<Rightarrow> store \<times> score"
  and minLoop :: "store \<Rightarrow> nat \<Rightarrow> int \<Rightarrow> nat \<Rightarrow> score \<Rightarrow> store \<times> score"
where
  "minimax s board depth isMaximizing =
     (case checkWinner (heap s board) of
        Win MarkO \<Rightarrow> (s, Score (10 - depth))
      | Win MarkX \<Rightarrow> (s, Score (depth - 10))
      | Draw \<Rightarrow> (s, Score 0)
      | InProgress \<Rightarrow>
          (if isMaximizing then maxLoop s board depth 0 NegInfinity
           else minLoop s board depth 0 Infinity))"
| "maxLoop s board depth i bestScore =
     (if i < 9 then
        (if elemAt (heap s board) i = Val None then
           (case minimax (setCell s board i (Some MarkO)) board (depth + 1) False of
              (s', score) \<Rightarrow>
                maxLoop (setCell s' board i None) board depth (i + 1) (max score bestScore))
         else maxLoop s board depth (i + 1) bestScore)
      else (s, bestScore))"
| "minLoop s board depth i bestScore =
     (if i < 9 then
        (if elemAt (heap s board) i = Val None then
           (case minimax (setCell s board i (Some MarkX)) board (depth + 1) True of
              (s', score) \<Rightarrow>
                minLoop (setCell s' board i None) board depth (i + 1) (min score bestScore))
         else minLoop s board depth (i + 1) bestScore)
      else (s, bestScore))"
  by pat_completeness auto

text \<open>
  The search terminates because each call it makes is on a board with one empty cell
  fewer; that the loop goes on with the same board rests on the recursive call having
  restored it, which is proved first, for the calls that return.
\<close>

definition nulls :: "player list \<Rightarrow> nat" where
  "nulls board = length (filter (\<lambda>cell. cell = None) board)"

lemma setCell_undo:
  "elemAt (heap s board) i = Val None \<Longrightarrow> setCell (setCell s board i v) board i None = s"
  by (auto simp: setCell_def elemAt_def fun_eq_iff list_update_same_conv split: if_splits)

lemma minimax_restores_partial:
  "minimax_maxLoop_minLoop_dom (Inl (s, board, depth, isMaximizing)) \<Longrightarrow>
     fst (minimax s board depth isMaximizing) = s"
  "minimax_maxLoop_minLoop_dom (Inr (Inl (s, board, depth, i, bestScore))) \<Longrightarrow>
     fst (maxLoop s board depth i bestScore) = s"
  "minimax_maxLoop_minLoop_dom (Inr (Inr (s, board, depth, i, bestScore))) \<Longrightarrow>
     fst (minLoop s board depth i bestScore) = s"
proof (induction rule: minimax_maxLoop_minLoop.pinduct)
  case (1 s board depth isMaximizing)
  then show ?case
    by (simp add: minimax.psimps split: outcome.splits mark.splits)
next
  case (2 s board depth i bestScore)
  show ?case
  proof (cases "i < 9 \<and> elemAt (heap s board) i = Val None")
    case True
    obtain s' score
      where r: "minimax (setCell s board i (Some MarkO)) board (depth + 1) False = (s', score)"
      by (cases "minimax (setCell s board i (Some MarkO)) board (depth + 1) False")
    with 2(2) True have s': "s' = setCell s board i (Some MarkO)" by simp
    with True have "setCell s' board i None = s" by (simp add: setCell_undo)
    with 2(3)[OF _ _ r[symmetric]] True r 2(1) show ?thesis
      by (simp add: maxLoop.psimps)
  next
    case False
    with 2 show ?thesis by (auto simp: maxLoop.psimps)
  qed
next
  case (3 s board depth i bestScore)
  show ?case
  proof (cases "i < 9 \<and> elemAt (heap s board) i = Val None")
    case True
    obtain s' score
      where r: "minimax (setCell s board i (Some MarkX)) board (depth + 1) True = (s', score)"
      by (cases "minimax (setCell s board i (Some MarkX)) board (depth + 1) True")
    with 3(2) True have s': "s' = setCell s board i (Some MarkX)" by simp
    with True have "setCell s' board i None = s" by (simp add: setCell_undo)
    with 3(3)[OF _ _ r[symmetric]] True r 3(1) show ?thesis
      by (simp add: minLoop.psimps)
  next
    case False
    with 3 show ?thesis by (auto simp: minLoop.psimps)
  qed
qed

lemma nulls_place:
  assumes "elemAt board i = Val None"
  shows "nulls (board[i := Some m]) < nulls board"
proof -
  from assms have "i < length board" "board ! i = None"
    by (auto simp: elemAt_def split: if_splits)
  then show ?thesis
    unfolding nulls_def
  proof (induction board arbitrary: i)
    case Nil
    then show ?case by simp
  next
    case (Cons c board)
    show ?case
    proof (cases i)
      case 0
      with Cons.prems show ?thesis by simp
    next
      case (Suc j)
      with Cons.prems have "j < length board" "board ! j = None" by auto
      from Cons.IH [OF this] Suc show ?thesis by simp
    qed
  qed
qed

lemma nulls_setCell:
  "elemAt (heap s board) i = Val None \<Longrightarrow>
     nulls (heap (setCell s board i (Some m)) board) < nulls (heap s board)"
  by (simp add: setCell_def nulls_place)

lemma minimax_result_partial:
  "(s', v) = minimax s board depth isMaximizing \<Longrightarrow>
   minimax_maxLoop_minLoop_dom (Inl (s, board, depth, isMaximizing)) \<Longrightarrow> s' = s"
  using minimax_restores_partial(1) [of s board depth isMaximizing] by (metis fst_conv)

termination minimax
proof (relation "measures [
     (\<lambda>x. case x of Inl (s, board, depth, isMaximizing) \<Rightarrow> nulls (heap s board)
        | Inr (Inl (s, board, depth, i, bestScore)) \<Rightarrow> nulls (heap s board)
        | Inr (Inr (s, board, depth, i, bestScore)) \<Rightarrow> nulls (heap s board)),
     (\<lambda>x. case x of Inl (s, board, depth, isMaximizing) \<Rightarrow> 10
        | Inr (Inl (s, board, depth, i, bestScore)) \<Rightarrow> 9 - i
        | Inr (Inr (s, board, depth, i, bestScore)) \<Rightarrow> 9 - i)]", goal_cases)
  case 1
  then show ?case by simp
next
  case (2 s board depth isMaximizing)
  then show ?case by simp
next
  case (3 s board depth isMaximizing)
  then show ?case by simp
next
  case (4 s board depth i bestScore)
  then show ?case by (simp add: nulls_setCell)
next
  case (5 s board depth i bestScore x y)
  then have "x = setCell s board i (Some MarkO)"
    by (intro minimax_result_partial)
  with 5 show ?case by (simp add: setCell_undo)
next
  case (6 s board depth i bestScore)
  then show ?case by simp
next
  case (7 s board depth i bestScore)
  then show ?case by (simp add: nulls_setCell)
next
  case (8 s board depth i bestScore x y)
  then have "x = setCell s board i (Some MarkX)"
    by (intro minimax_result_partial)
  with 8 show ?case by (simp add: setCell_undo)
next
  case (9 s board depth i bestScore)
  then show ?case by simp
qed

subsection \<open>\<open>getAIMove\<close>\<close>

text \<open>
  The two scans \<^verbatim>\<open>for (let cell of emptyCells)\<close>, for \<open>'O'\<close> (a winning move) and for
  \<open>'X'\<close> (a blocking move); they differ in the mark only. Each step copies the board,
  writes the mark into the copy and asks \<open>checkWinner\<close>. \<open>Some cell\<close> is the early
  \<^verbatim>\<open>return cell\<close>, \<open>None\<close> is "the loop fell through".
\<close>

fun scanFor :: "store \<Rightarrow> nat \<Rightarrow> mark \<Rightarrow> nat list \<Rightarrow> store \<times> nat option" where
  "scanFor s board m [] = (s, None)"
| "scanFor s board m (cell # cells) =
     (case copyArray s board of
        (s1, testBoard) \<Rightarrow>
          (let s2 = setCell s1 testBoard cell (Some m) in
           if checkWinner (heap s2 testBoard) = Win m then (s2, Some cell)
           else scanFor s2 board m cells))"

text \<open>The root loop of the hard difficulty, carrying \<open>bestScore\<close> and \<open>bestMove\<close>.\<close>

fun bestMoveLoop ::
  "store \<Rightarrow> nat \<Rightarrow> nat list \<Rightarrow> score \<Rightarrow> nat jsval \<Rightarrow> store \<times> nat jsval" where
  "bestMoveLoop s board [] bestScore bestMove = (s, bestMove)"
| "bestMoveLoop s board (cell # cells) bestScore bestMove =
     (case copyArray s board of
        (s1, testBoard) \<Rightarrow>
          (case minimax (setCell s1 testBoard cell (Some MarkO)) testBoard 0 False of
             (s2, score) \<Rightarrow>
               if score > bestScore then bestMoveLoop s2 board cells score (Val cell)
               else bestMoveLoop s2 board cells bestScore bestMove))"

text \<open>
  \<open>getAIMove\<close>. The argument \<open>random\<close> stands for the one draw a call makes:
  \<open>random n\<close> is the value of \<^verbatim>\<open>Math.floor(Math.random() * n)\<close>, which is below \<open>n\<close> for
  \<open>n > 0\<close> and is \<open>0\<close> for \<open>n = 0\<close>. \<open>emptyCells\<close> and \<open>corners\<close> are arrays the call builds
  and never writes to; they are plain lists.
\<close>

definition getAIMove ::
  "store \<Rightarrow> nat \<Rightarrow> difficulty \<Rightarrow> (nat \<Rightarrow> nat) \<Rightarrow> store \<times> nat jsval" where
  "getAIMove s board difficulty random =
     (let emptyCells = filter (\<lambda>index. heap s board ! index = None)
                              [0 ..< length (heap s board)]
      in
      if difficulty = Easy then (s, elemAt emptyCells (random (length emptyCells)))
      else
        (case scanFor s board MarkO emptyCells of
           (s1, Some cell) \<Rightarrow> (s1, Val cell)
         | (s1, None) \<Rightarrow>
        (case scanFor s1 board MarkX emptyCells of
           (s2, Some cell) \<Rightarrow> (s2, Val cell)
         | (s2, None) \<Rightarrow>
        (if difficulty = Medium \<and> elemAt (heap s2 board) 4 = Val None then (s2, Val 4)
         else
           (let corners = filter (\<lambda>i. elemAt (heap s2 board) i = Val None) [0, 2, 6, 8]
            in
            if difficulty = Medium \<and> length corners > 0
            then (s2, elemAt corners (random (length corners)))
            else if difficulty = Hard
            then bestMoveLoop s2 board emptyCells NegInfinity (elemAt emptyCells 0)
            else (s2, elemAt emptyCells (random (length emptyCells))))))))"

section \<open>Statistics\<close>

record gameStats =
  playerWins :: nat
  aiWins :: nat
  draws :: nat

text \<open>
  The part of the component state that \<open>updateStats\<close> reads and writes. The counters are
  JavaScript numbers; they are modelled as natural numbers (exact below \<open>2^53\<close>).
\<close>

record statsState =
  gameMode :: gameMode
  stats :: gameStats
  gameCount :: nat

definition updateStats :: "outcome \<Rightarrow> statsState \<Rightarrow> statsState" where
  "updateStats winner st =
     st\<lparr> stats := (stats st)\<lparr>
            playerWins := (if winner = Win MarkX then playerWins (stats st) + 1
                           else playerWins (stats st)),
            aiWins := (if winner = Win MarkO \<and> gameMode st = Ai then aiWins (stats st) + 1
                       else aiWins (stats st)),
            draws := (if winner = Draw then draws (stats st) + 1 else draws (stats st)) \<rparr>,
         gameCount := gameCount st + 1 \<rparr>"

text \<open>The state after \<^verbatim>\<open>startGame('pvp')\<close> on a fresh component: all counters zero.\<close>

definition freshPvp :: statsState where
  "freshPvp = \<lparr> gameMode = Pvp, stats = \<lparr> playerWins = 0, aiWins = 0, draws = 0 \<rparr>,
               gameCount = 0 \<rparr>"

section \<open>Specification-level notions used by the claims\<close>

text \<open>
  A line of a 9-cell board is complete when its three cells are non-empty and identical
  (the words of the specification, on a board that has all nine cells).
\<close>

definition complete :: "player list \<Rightarrow> nat \<times> nat \<times> nat \<Rightarrow> bool" where
  "complete board l =
     (case l of (a, b, c) \<Rightarrow> board ! a \<noteq> None \<and> board ! a = board ! b \<and> board ! a = board ! c)"

definition lineMark :: "player list \<Rightarrow> nat \<times> nat \<times> nat \<Rightarrow> player" where
  "lineMark board l = (case l of (a, b, c) \<Rightarrow> board ! a)"

section \<open>The minimax value of a position, as the specification words it\<close>

text \<open>
  The moves of a position are its empty cells among the nine cells of the grid. The
  value of a position at ply \<open>depth\<close> is \<open>10 - depth\<close> when \<open>'O'\<close> has won, \<open>depth - 10\<close>
  when \<open>'X'\<close> has won, \<open>0\<close> for a draw; otherwise it is the highest value of the
  positions after a move of \<open>'O'\<close> when the maximizer is to move, and the lowest value
  of the positions after a move of \<open>'X'\<close> when the minimizer is.
\<close>

definition moves :: "player list \<Rightarrow> nat list" where
  "moves board = filter (\<lambda>i. elemAt board i = Val None) [0 ..< 9]"

definition maximum :: "score list \<Rightarrow> score" where
  "maximum xs = fold max xs NegInfinity"

definition minimum :: "score list \<Rightarrow> score" where
  "minimum xs = fold min xs Infinity"

lemma nulls_moves: "i \<in> set (moves board) \<Longrightarrow> nulls (board[i := Some m]) < nulls board"
  by (simp add: moves_def nulls_place)

function minimax_value :: "player list \<Rightarrow> int \<Rightarrow> bool \<Rightarrow> score" where
  "minimax_value board depth isMaximizing =
     (case checkWinner board of
        Win MarkO \<Rightarrow> Score (10 - depth)
      | Win MarkX \<Rightarrow> Score (depth - 10)
      | Draw \<Rightarrow> Score 0
      | InProgress \<Rightarrow>
          (if isMaximizing
           then maximum (map (\<lambda>i. minimax_value (board[i := Some MarkO]) (depth + 1) False)
                             (moves board))
           else minimum (map (\<lambda>i. minimax_value (board[i := Some MarkX]) (depth + 1) True)
                             (moves board))))"
  by pat_completeness auto
termination
  by (relation "measure (\<lambda>(board, depth, isMaximizing). nulls board)")
     (auto simp: nulls_moves)

text \<open>The value of playing \<open>'O'\<close> at \<open>cell\<close>, as the root of \<open>getAIMove\<close> asks for it.\<close>

definition rootValue :: "player list \<Rightarrow> nat \<Rightarrow> score" where
  "rootValue board cell = minimax_value (board[cell := Some MarkO]) 0 False"

section \<open>The move selector as a function of the board's contents\<close>

text \<open>
  What \<open>getAIMove\<close> returns, read off the contents of the board alone: the scans are
  \<open>find\<close> over the empty cells, the root loop is \<open>firstBest\<close> over the values of the
  moves. Lemma \<open>getAIMove_pure\<close> below proves that \<open>getAIMove\<close> returns this value from
  every store in which the board is allocated. \<open>extends s s'\<close> says that \<open>s'\<close> has every
  array of \<open>s\<close> with its contents, and possibly new ones.
\<close>

definition emptyCells :: "player list \<Rightarrow> nat list" where
  "emptyCells board = filter (\<lambda>index. board ! index = None) [0 ..< length board]"

definition winsAt :: "player list \<Rightarrow> mark \<Rightarrow> nat \<Rightarrow> bool" where
  "winsAt board m cell = (checkWinner (board[cell := Some m]) = Win m)"

fun firstBest :: "(nat \<Rightarrow> score) \<Rightarrow> nat list \<Rightarrow> score \<Rightarrow> nat jsval \<Rightarrow> nat jsval" where
  "firstBest f [] bestScore bestMove = bestMove"
| "firstBest f (cell # cells) bestScore bestMove =
     (if f cell > bestScore then firstBest f cells (f cell) (Val cell)
      else firstBest f cells bestScore bestMove)"

definition chooseMove :: "player list \<Rightarrow> difficulty \<Rightarrow> (nat \<Rightarrow> nat) \<Rightarrow> nat jsval" where
  "chooseMove board difficulty random =
     (if difficulty = Easy then elemAt (emptyCells board) (random (length (emptyCells board)))
      else case find (winsAt board MarkO) (emptyCells board) of
        Some cell \<Rightarrow> Val cell
      | None \<Rightarrow>
     (case find (winsAt board MarkX) (emptyCells board) of
        Some cell \<Rightarrow> Val cell
      | None \<Rightarrow>
     (if difficulty = Medium \<and> elemAt board 4 = Val None then Val 4
      else if difficulty = Medium \<and> filter (\<lambda>i. elemAt board i = Val None) [0, 2, 6, 8] \<noteq> []
      then elemAt (filter (\<lambda>i. elemAt board i = Val None) [0, 2, 6, 8])
             (random (length (filter (\<lambda>i. elemAt board i = Val None) [0, 2, 6, 8])))
      else if difficulty = Hard
      then firstBest (rootValue board) (emptyCells board) NegInfinity (elemAt (emptyCells board) 0)
      else elemAt (emptyCells board) (random (length (emptyCells board))))))"

definition extends :: "store \<Rightarrow> store \<Rightarrow> bool" where
  "extends s s' = (fresh s \<le> fresh s' \<and> (\<forall>r < fresh s. heap s' r = heap s r))"

section \<open>Stores and boards used as examples\<close>

text \<open>\<open>storeOf board\<close> is a store whose only array, at reference 0, is \<open>board\<close>.\<close>

definition storeOf :: "player list \<Rightarrow> store" where
  "storeOf board = \<lparr> heap = (\<lambda>r. [])(0 := board), fresh = 1 \<rparr>"

definition fullBoard :: "player list" where
  "fullBoard = [Some MarkX, Some MarkO, Some MarkX,
                Some MarkX, Some MarkO, Some MarkO,
                Some MarkO, Some MarkX, Some MarkX]"

definition twoInRow :: "player list" where
  "twoInRow = [Some MarkX, Some MarkX, None, None, None, None, None, None, None]"

section \<open>Cells that complete a line\<close>

text \<open>
  An empty cell completes a line for a mark when one of the eight lines goes through
  the cell and is complete once the mark is placed there: the two other cells of the
  line hold the mark already.
\<close>

definition onLine :: "nat \<Rightarrow> nat \<times> nat \<times> nat \<Rightarrow> bool" where
  "onLine cell l = (case l of (a, b, c) \<Rightarrow> cell = a \<or> cell = b \<or> cell = c)"

definition completesLine :: "player list \<Rightarrow> mark \<Rightarrow> nat \<Rightarrow> bool" where
  "completesLine board m cell =
     (board ! cell = None \<and>
      (\<exists>l \<in> set lines. onLine cell l \<and> complete (board[cell := Some m]) l))"

text \<open>A board of the specification's tests, \<open>['O','O',null,'X','X',null,null,null,null]\<close>.\<close>

definition winAndBlock :: "player list" where
  "winAndBlock = [Some MarkO, Some MarkO, None, Some MarkX, Some MarkX, None, None, None, None]"

section \<open>The first move of highest value\<close>

text \<open>
  \<open>firstHighest board c\<close>: \<open>c\<close> is an empty cell, no empty cell has a higher value than
  \<open>c\<close>, and every empty cell of lower index has a strictly lower value: \<open>c\<close> is the
  first, in increasing index order, of the moves of highest minimax value.
  \<open>threats board m\<close> lists the cells that complete a line for \<open>m\<close>.
\<close>

definition firstHighest :: "player list \<Rightarrow> nat \<Rightarrow> bool" where
  "firstHighest board c =
     (c < 9 \<and> board ! c = None
      \<and> (\<forall>c' < 9. board ! c' = None \<longrightarrow> rootValue board c' \<le> rootValue board c)
      \<and> (\<forall>c' < c. board ! c' = None \<longrightarrow> rootValue board c' < rootValue board c))"

definition threats :: "player list \<Rightarrow> mark \<Rightarrow> nat list" where
  "threats board m = filter (completesLine board m) [0 ..< 9]"

text \<open>
  A position in which \<open>'X'\<close> threatens twice (cells 2 and 3) and \<open>'O'\<close> is to move, and
  the position after \<open>'X'\<close> opens in the centre.
\<close>

definition forked :: "player list" where
  "forked = [None, None, None, None, Some MarkX, Some MarkX, Some MarkX, Some MarkO, Some MarkO]"

definition centerX :: "player list" where
  "centerX = [None, None, None, None, Some MarkX, None, None, None, None]"

section \<open>One turn of a game against the computer\<close>

text \<open>
  \<open>handleCellPress\<close> in the mode \<open>'ai'\<close>, where \<open>currentPlayer\<close> is \<open>'X'\<close> at every press
  that is not ignored: the press of the human, and the reply that the timer started by
  the press delivers, taken as one step with no press in between. \<open>random\<close> is the draw
  of the reply. The reply reads \<open>scaleValues[aiMove].value\<close>, which throws a TypeError when
  \<open>aiMove\<close> is \<open>undefined\<close>: that is the result \<open>None\<close>. \<open>setDifficulty\<close> is the handler of
  the difficulty buttons, shown during the game.
\<close>

record game =
  gameBoard :: "player list"
  gameWinner :: outcome
  gameDifficulty :: difficulty

definition handleCellPress :: "(nat \<Rightarrow> nat) \<Rightarrow> game \<Rightarrow> nat \<Rightarrow> game option" where
  "handleCellPress random g index =
     (if (\<exists>m. elemAt (gameBoard g) index = Val (Some m)) \<or> gameWinner g \<noteq> InProgress
      then Some g
      else
        (let newBoard = (gameBoard g)[index := Some MarkX];
             gameWinner' = checkWinner newBoard
         in
         if gameWinner' \<noteq> InProgress
         then Some (g\<lparr> gameBoard := newBoard, gameWinner := gameWinner' \<rparr>)
         else
           (case snd (getAIMove (storeOf newBoard) 0 (gameDifficulty g) random) of
              Val aiMove \<Rightarrow>
                (let aiBoard = newBoard[aiMove := Some MarkO]
                 in Some (g\<lparr> gameBoard := aiBoard, gameWinner := checkWinner aiBoard \<rparr>))
            | Undefined \<Rightarrow> None)))"

inductive plays :: "game \<Rightarrow> game \<Rightarrow> bool" for g where
  start: "plays g g"
| press: "plays g g1 \<Longrightarrow> index < length (gameBoard g1) \<Longrightarrow>
          handleCellPress random g1 index = Some g2 \<Longrightarrow> plays g g2"

text \<open>
  \<open>canHold board\<close>: with \<open>'X'\<close> to move, the minimax value of the position is at least 0,
  that is, \<open>'O'\<close> can still avoid defeat. \<open>newGame d\<close> is the state after \<^verbatim>\<open>startGame('ai')\<close>
  with the difficulty at \<open>d\<close>.
\<close>

definition canHold :: "player list \<Rightarrow> bool" where
  "canHold board = (Score 0 \<le> minimax_value board 0 False)"

definition newGame :: "difficulty \<Rightarrow> game" where
  "newGame d = \<lparr> gameBoard = replicate 9 None, gameWinner = InProgress, gameDifficulty = d \<rparr>"

definition setDifficulty :: "difficulty \<Rightarrow> game \<Rightarrow> game" where
  "setDifficulty d g = g\<lparr> gameDifficulty := d \<rparr>"

text \<open>
  The states from which the computer, at difficulty hard, can still avoid defeat:
  a 9-cell board, the winner that \<open>checkWinner\<close> reports for it, and a position \<open>'O'\<close>
  can hold.
\<close>

definition holdable :: "game \<Rightarrow> bool" where
  "holdable g = (length (gameBoard g) = 9 \<and> gameWinner g = checkWinner (gameBoard g)
                 \<and> gameDifficulty g = Hard \<and> canHold (gameBoard g))"

text \<open>
  The game in which both sides play the cell that \<open>getAIMove\<close> returns at difficulty
  hard, \<open>mover\<close> placing its own mark there; \<open>fuel\<close> bounds the number of moves and
  \<open>None\<close> is "not finished within \<open>fuel\<close> moves".
\<close>

definition other :: "mark \<Rightarrow> mark" where
  "other m = (case m of MarkX \<Rightarrow> MarkO | MarkO \<Rightarrow> MarkX)"

fun selfPlay :: "nat \<Rightarrow> mark \<Rightarrow> player list \<Rightarrow> player list option" where
  "selfPlay 0 mover board = (if checkWinner board \<noteq> InProgress then Some board else None)"
| "selfPlay (Suc fuel) mover board =
     (if checkWinner board \<noteq> InProgress then Some board
      else
        (case snd (getAIMove (storeOf board) 0 Hard (\<lambda>n. 0)) of
           Val cell \<Rightarrow> selfPlay fuel (other mover) (board[cell := Some mover])
         | Undefined \<Rightarrow> None))"

definition drawnBoard :: "player list" where
  "drawnBoard = [Some MarkO, Some MarkX, Some MarkO, Some MarkX, Some MarkX, Some MarkO,
                 Some MarkX, Some MarkO, Some MarkX]"

text \<open>
  The position after \<open>'X'\<close> opens in the centre and \<open>'O'\<close> replies on the edge cell 1, and
  the position in which \<open>'X'\<close> has won from there.
\<close>

definition edgeReply :: "player list" where
  "edgeReply = [None, Some MarkO, None, None, Some MarkX, None, None, None, None]"

definition lostBoard :: "player list" where
  "lostBoard = [Some MarkX, Some MarkO, Some MarkO, Some MarkX, Some MarkX, None,
                Some MarkX, None, Some MarkO]"

section \<open>A checker for bounds on the minimax value\<close>

text \<open>
  \<open>holds True board depth isMaximizing v\<close> searches for a proof that the minimax value is
  at least \<open>v\<close>, and \<open>holds False \<dots>\<close> that it is at most \<open>v\<close>: one move is enough where
  the side to move wants the bound, every move is needed where it does not. It is a
  device of the proofs below (lemma \<open>holds_sound\<close>), not a function of the program.
\<close>

datatype verdict = Yes | No

function holds :: "bool \<Rightarrow> player list \<Rightarrow> int \<Rightarrow> bool \<Rightarrow> int \<Rightarrow> verdict"
  and someMove :: "bool \<Rightarrow> player list \<Rightarrow> int \<Rightarrow> bool \<Rightarrow> int \<Rightarrow> nat list \<Rightarrow> verdict"
  and everyMove :: "bool \<Rightarrow> player list \<Rightarrow> int \<Rightarrow> bool \<Rightarrow> int \<Rightarrow> nat list \<Rightarrow> verdict"
where
  "holds ge board depth isMaximizing v =
     (case checkWinner board of
        Win MarkO \<Rightarrow> (if (if ge then v \<le> 10 - depth else 10 - depth \<le> v) then Yes else No)
      | Win MarkX \<Rightarrow> (if (if ge then v \<le> depth - 10 else depth - 10 \<le> v) then Yes else No)
      | Draw \<Rightarrow> (if (if ge then v \<le> 0 else 0 \<le> v) then Yes else No)
      | InProgress \<Rightarrow>
          (if isMaximizing = ge
           then someMove ge board depth isMaximizing v [0, 1, 2, 3, 4, 5, 6, 7, 8]
           else everyMove ge board depth isMaximizing v [0, 1, 2, 3, 4, 5, 6, 7, 8]))"
| "someMove ge board depth isMaximizing v [] = No"
| "someMove ge board depth isMaximizing v (i # cells) =
     (if elemAt board i = Val None then
        (case holds ge (board[i := Some (if isMaximizing then MarkO else MarkX)])
                (depth + 1) (\<not> isMaximizing) v of
           Yes \<Rightarrow> Yes
         | No \<Rightarrow> someMove ge board depth isMaximizing v cells)
      else someMove ge board depth isMaximizing v cells)"
| "everyMove ge board depth isMaximizing v [] = Yes"
| "everyMove ge board depth isMaximizing v (i # cells) =
     (if elemAt board i = Val None then
        (case holds ge (board[i := Some (if isMaximizing then MarkO else MarkX)])
                (depth + 1) (\<not> isMaximizing) v of
           Yes \<Rightarrow> everyMove ge board depth isMaximizing v cells
         | No \<Rightarrow> No)
      else everyMove ge board depth isMaximizing v cells)"
  by pat_completeness auto
termination
proof (relation "measures [
     (\<lambda>x. case x of Inl (ge, board, depth, isMaximizing, v) \<Rightarrow> nulls board
        | Inr (Inl (ge, board, depth, isMaximizing, v, cells)) \<Rightarrow> nulls board
        | Inr (Inr (ge, board, depth, isMaximizing, v, cells)) \<Rightarrow> nulls board),
     (\<lambda>x. case x of Inl (ge, board, depth, isMaximizing, v) \<Rightarrow> 10
        | Inr (Inl (ge, board, depth, isMaximizing, v, cells)) \<Rightarrow> length cells
        | Inr (Inr (ge, board, depth, isMaximizing, v, cells)) \<Rightarrow> length cells)]", goal_cases)
  case 1
  then show ?case by simp
next
  case 2 then show ?case by simp
next
  case 3 then show ?case by simp
next
  case 4 then show ?case by (simp add: nulls_place)
next
  case 5 then show ?case by simp
next
  case 6 then show ?case by simp
next
  case 7 then show ?case by (simp add: nulls_place)
next
  case 8 then show ?case by simp
next
  case 9 then show ?case by simp
qed

section \<open>Properties of \<open>checkWinner\<close>\<close>

lemma elemAt_in_range: "i < length board \<Longrightarrow> elemAt board i = Val (board ! i)"
  by (simp add: elemAt_def)

lemma lines_in_range: "(a, b, c) \<in> set lines \<Longrightarrow> a < 9 \<and> b < 9 \<and> c < 9"
  by (auto simp: lines_def)

lemma checkLines_step:
  assumes "a < length board" "b < length board" "c < length board"
  shows "checkLines board ((a, b, c) # rest) =
           (if complete board (a, b, c) then board ! a else checkLines board rest)"
  using assms by (auto simp: elemAt_in_range complete_def split: option.splits)

lemma checkLines_first:
  assumes "\<forall>l \<in> set ls. case l of (a, b, c) \<Rightarrow>
             a < length board \<and> b < length board \<and> c < length board"
  shows "checkLines board ls =
           (case find (complete board) ls of None \<Rightarrow> None | Some l \<Rightarrow> lineMark board l)"
  using assms
proof (induction ls)
  case Nil
  then show ?case by simp
next
  case (Cons l ls)
  obtain a b c where l: "l = (a, b, c)" by (cases l) auto
  with Cons.prems have r: "a < length board" "b < length board" "c < length board"
    by auto
  from Cons have "checkLines board ls =
      (case find (complete board) ls of None \<Rightarrow> None | Some l \<Rightarrow> lineMark board l)"
    by simp
  with r show ?case
    unfolding l by (simp add: checkLines_step lineMark_def del: checkLines.simps)
qed

lemma checkLines_9:
  assumes "length board = 9"
  shows "checkLines board lines =
           (case find (complete board) lines of None \<Rightarrow> None | Some l \<Rightarrow> lineMark board l)"
proof (rule checkLines_first)
  show "\<forall>l \<in> set lines. case l of (a, b, c) \<Rightarrow>
          a < length board \<and> b < length board \<and> c < length board"
    using assms lines_in_range by fastforce
qed

lemma find_first_index:
  assumes "k < length ls" "P (ls ! k)" "\<forall>j < k. \<not> P (ls ! j)"
  shows "find P ls = Some (ls ! k)"
  using assms
proof (induction ls arbitrary: k)
  case Nil
  then show ?case by simp
next
  case (Cons l ls)
  show ?case
  proof (cases k)
    case 0
    with Cons.prems show ?thesis by simp
  next
    case (Suc k')
    with Cons.prems have "\<not> P l" by auto
    moreover from Suc Cons.prems have "find P ls = Some (ls ! k')"
      by (intro Cons.IH) auto
    ultimately show ?thesis using Suc by simp
  qed
qed

lemma find_none_index: "(\<forall>j < length ls. \<not> P (ls ! j)) \<Longrightarrow> find P ls = None"
  by (auto simp: find_None_iff in_set_conv_nth)

lemma list_all_index: "list_all P xs = (\<forall>i < length xs. P (xs ! i))"
  by (simp add: list_all_iff all_set_conv_all_nth)

text \<open>
  Claim C1. On every 9-cell board \<open>checkWinner\<close> returns the mark of the first complete
  line in the order of the table, which lists the three rows, then the three columns,
  then the two diagonals; with no complete line it returns \<open>Draw\<close> when every cell is
  non-empty and \<open>InProgress\<close> (null) otherwise.
\<close>

theorem checkWinner_first_line:
  assumes "length board = 9"
  shows "lines = map (\<lambda>r. (3 * r, 3 * r + 1, 3 * r + 2)) [0, 1, 2]
               @ map (\<lambda>c. (c, c + 3, c + 6)) [0, 1, 2]
               @ [(0, 4, 8), (2, 4, 6)]
       \<and> (\<forall>k < length lines.
             complete board (lines ! k) \<and> (\<forall>j < k. \<not> complete board (lines ! j)) \<longrightarrow>
             (\<exists>m. lineMark board (lines ! k) = Some m \<and> checkWinner board = Win m))
       \<and> ((\<forall>k < length lines. \<not> complete board (lines ! k)) \<and> (\<forall>i < 9. board ! i \<noteq> None) \<longrightarrow>
             checkWinner board = Draw)
       \<and> ((\<forall>k < length lines. \<not> complete board (lines ! k)) \<and> (\<exists>i < 9. board ! i = None) \<longrightarrow>
             checkWinner board = InProgress)"
proof (intro conjI)
  show "lines = map (\<lambda>r. (3 * r, 3 * r + 1, 3 * r + 2)) [0, 1, 2]
               @ map (\<lambda>c. (c, c + 3, c + 6)) [0, 1, 2]
               @ [(0, 4, 8), (2, 4, 6)]"
    by (simp add: lines_def)
  show "\<forall>k < length lines.
           complete board (lines ! k) \<and> (\<forall>j < k. \<not> complete board (lines ! j)) \<longrightarrow>
           (\<exists>m. lineMark board (lines ! k) = Some m \<and> checkWinner board = Win m)"
  proof (intro allI impI)
    fix k
    assume k: "k < length lines"
      and c: "complete board (lines ! k) \<and> (\<forall>j < k. \<not> complete board (lines ! j))"
    then have f: "find (complete board) lines = Some (lines ! k)"
      by (intro find_first_index) auto
    from c obtain m where m: "lineMark board (lines ! k) = Some m"
      by (cases "lines ! k") (auto simp: complete_def lineMark_def)
    with f assms have "checkWinner board = Win m"
      by (simp add: checkWinner_def checkLines_9)
    with m show "\<exists>m. lineMark board (lines ! k) = Some m \<and> checkWinner board = Win m"
      by blast
  qed
  show "(\<forall>k < length lines. \<not> complete board (lines ! k)) \<and> (\<forall>i < 9. board ! i \<noteq> None) \<longrightarrow>
           checkWinner board = Draw"
    using assms
    by (auto simp: checkWinner_def checkLines_9 find_none_index list_all_index)
  show "(\<forall>k < length lines. \<not> complete board (lines ! k)) \<and> (\<exists>i < 9. board ! i = None) \<longrightarrow>
           checkWinner board = InProgress"
    using assms
    by (auto simp: checkWinner_def checkLines_9 find_none_index list_all_index)
qed

theorem checkWinner_first_line_witness:
  "length [Some MarkO, Some MarkX, None, Some MarkX, Some MarkX, Some MarkX,
           Some MarkO, Some MarkO, Some MarkO] = 9
   \<and> checkWinner [Some MarkO, Some MarkX, None, Some MarkX, Some MarkX, Some MarkX,
                  Some MarkO, Some MarkO, Some MarkO] = Win MarkX"
proof -
  let ?b = "[Some MarkO, Some MarkX, None, Some MarkX, Some MarkX, Some MarkX,
             Some MarkO, Some MarkO, Some MarkO]"
  have len: "length ?b = 9" by simp
  have first: "complete ?b (lines ! 1) \<and> (\<forall>j < 1. \<not> complete ?b (lines ! j))"
    by (simp add: complete_def lines_def)
  have "1 < length lines" by (simp add: lines_def)
  with checkWinner_first_line [OF len] first
  have "\<exists>m. lineMark ?b (lines ! 1) = Some m \<and> checkWinner ?b = Win m"
    by blast
  then have "checkWinner ?b = Win MarkX"
    by (auto simp: lineMark_def lines_def)
  with len show ?thesis by simp
qed

section \<open>Properties of \<open>updateStats\<close>\<close>

text \<open>
  Claim C10. For every outcome passed to it, \<open>updateStats\<close> adds exactly one to
  \<open>gameCount\<close>, adds one to \<open>playerWins\<close> exactly when the winner is \<open>'X'\<close>, to \<open>draws\<close>
  exactly when the outcome is a draw, and to \<open>aiWins\<close> exactly when the winner is \<open>'O'\<close>
  and the game mode is \<open>'ai'\<close>. So a win of \<open>'O'\<close> in two-player mode changes none of
  the three counters, and after the first such game their sum (0) is strictly less than
  \<open>gameCount\<close> (1).
\<close>

theorem updateStats_counts:
  "gameCount (updateStats winner st) = gameCount st + 1
   \<and> playerWins (stats (updateStats winner st)) =
       playerWins (stats st) + (if winner = Win MarkX then 1 else 0)
   \<and> draws (stats (updateStats winner st)) =
       draws (stats st) + (if winner = Draw then 1 else 0)
   \<and> aiWins (stats (updateStats winner st)) =
       aiWins (stats st) + (if winner = Win MarkO \<and> gameMode st = Ai then 1 else 0)
   \<and> gameMode (updateStats winner st) = gameMode st
   \<and> (gameMode st = Pvp \<longrightarrow> stats (updateStats (Win MarkO) st) = stats st)
   \<and> playerWins (stats (updateStats (Win MarkO) freshPvp))
       + aiWins (stats (updateStats (Win MarkO) freshPvp))
       + draws (stats (updateStats (Win MarkO) freshPvp))
       < gameCount (updateStats (Win MarkO) freshPvp)"
  by (simp add: updateStats_def freshPvp_def)

theorem updateStats_counts_witness:
  "gameMode freshPvp = Pvp
   \<and> stats (updateStats (Win MarkO) freshPvp) = \<lparr> playerWins = 0, aiWins = 0, draws = 0 \<rparr>
   \<and> gameCount (updateStats (Win MarkO) freshPvp) = 1"
proof -
  have m: "gameMode freshPvp = Pvp" by (simp add: freshPvp_def)
  from updateStats_counts [of "Win MarkO" freshPvp] m
  have "stats (updateStats (Win MarkO) freshPvp) = stats freshPvp"
    and "gameCount (updateStats (Win MarkO) freshPvp) = gameCount freshPvp + 1"
    by blast+
  with m show ?thesis by (simp add: freshPvp_def)
qed

section \<open>The search computes the minimax value and restores the board\<close>

declare minimax_value.simps [simp del]
declare minimax.simps [simp del] maxLoop.simps [simp del] minLoop.simps [simp del]

lemma heap_setCell: "heap (setCell s r i v) r = (heap s r)[i := v]"
  by (simp add: setCell_def)

lemma moves_from:
  "i < 9 \<Longrightarrow> filter (\<lambda>j. elemAt board j = Val None) [i ..< 9] =
     (if elemAt board i = Val None then [i] else []) @ filter (\<lambda>j. elemAt board j = Val None) [Suc i ..< 9]"
  by (simp add: upt_conv_Cons)

lemma minimax_refines:
  "minimax s board depth isMaximizing = (s, minimax_value (heap s board) depth isMaximizing)"
  "maxLoop s board depth i bestScore =
     (s, fold max (map (\<lambda>j. minimax_value ((heap s board)[j := Some MarkO]) (depth + 1) False)
                       (filter (\<lambda>j. elemAt (heap s board) j = Val None) [i ..< 9])) bestScore)"
  "minLoop s board depth i bestScore =
     (s, fold min (map (\<lambda>j. minimax_value ((heap s board)[j := Some MarkX]) (depth + 1) True)
                       (filter (\<lambda>j. elemAt (heap s board) j = Val None) [i ..< 9])) bestScore)"
proof (induction s board depth isMaximizing and s board depth i bestScore and s board depth i bestScore
       rule: minimax_maxLoop_minLoop.induct)
  case (1 s board depth isMaximizing)
  show ?case
  proof (cases "checkWinner (heap s board)")
    case (Win m)
    then show ?thesis
      by (cases m) (simp_all add: minimax.simps [of s board] minimax_value.simps [of "heap s board"])
  next
    case Draw
    then show ?thesis
      by (simp add: minimax.simps [of s board] minimax_value.simps [of "heap s board"])
  next
    case InProgress
    with 1 show ?thesis
      by (simp add: minimax.simps [of s board] minimax_value.simps [of "heap s board"]
          maximum_def minimum_def moves_def)
  qed
next
  case (2 s board depth i bestScore)
  show ?case
  proof (cases "i < 9")
    case False
    then show ?thesis by (simp add: maxLoop.simps [of s board depth i])
  next
    case i: True
    show ?thesis
    proof (cases "elemAt (heap s board) i = Val None")
      case False
      with i 2(3) show ?thesis
        by (simp add: maxLoop.simps [of s board depth i] moves_from)
    next
      case True
      let ?s1 = "setCell s board i (Some MarkO)"
      from 2(1) [OF i True]
      have r: "minimax ?s1 board (depth + 1) False =
                 (?s1, minimax_value ((heap s board)[i := Some MarkO]) (depth + 1) False)"
        by (simp add: heap_setCell)
      from True have u: "setCell ?s1 board i None = s" by (rule setCell_undo)
      from 2(2) [OF i True r [symmetric]] u
      have "maxLoop s board depth (i + 1)
              (max (minimax_value ((heap s board)[i := Some MarkO]) (depth + 1) False) bestScore) =
            (s, fold max (map (\<lambda>j. minimax_value ((heap s board)[j := Some MarkO]) (depth + 1) False)
                   (filter (\<lambda>j. elemAt (heap s board) j = Val None) [i + 1 ..< 9]))
                 (max (minimax_value ((heap s board)[i := Some MarkO]) (depth + 1) False) bestScore))"
        by simp
      with i True r u show ?thesis
        by (simp add: maxLoop.simps [of s board depth i] moves_from)
    qed
  qed
next
  case (3 s board depth i bestScore)
  show ?case
  proof (cases "i < 9")
    case False
    then show ?thesis by (simp add: minLoop.simps [of s board depth i])
  next
    case i: True
    show ?thesis
    proof (cases "elemAt (heap s board) i = Val None")
      case False
      with i 3(3) show ?thesis
        by (simp add: minLoop.simps [of s board depth i] moves_from)
    next
      case True
      let ?s1 = "setCell s board i (Some MarkX)"
      from 3(1) [OF i True]
      have r: "minimax ?s1 board (depth + 1) True =
                 (?s1, minimax_value ((heap s board)[i := Some MarkX]) (depth + 1) True)"
        by (simp add: heap_setCell)
      from True have u: "setCell ?s1 board i None = s" by (rule setCell_undo)
      from 3(2) [OF i True r [symmetric]] u
      have "minLoop s board depth (i + 1)
              (min (minimax_value ((heap s board)[i := Some MarkX]) (depth + 1) True) bestScore) =
            (s, fold min (map (\<lambda>j. minimax_value ((heap s board)[j := Some MarkX]) (depth + 1) True)
                   (filter (\<lambda>j. elemAt (heap s board) j = Val None) [i + 1 ..< 9]))
                 (min (minimax_value ((heap s board)[i := Some MarkX]) (depth + 1) True) bestScore))"
        by simp
      with i True r u show ?thesis
        by (simp add: minLoop.simps [of s board depth i] moves_from)
    qed
  qed
qed

section \<open>\<open>getAIMove\<close> returns \<open>chooseMove\<close> and writes to fresh arrays only\<close>

lemma extends_refl: "extends s s"
  by (simp add: extends_def)

lemma extends_trans: "extends s s1 \<Longrightarrow> extends s1 s2 \<Longrightarrow> extends s s2"
  by (auto simp: extends_def)

lemma extends_heap: "extends s s' \<Longrightarrow> r < fresh s \<Longrightarrow> heap s' r = heap s r"
  by (simp add: extends_def)

lemma extends_fresh: "extends s s' \<Longrightarrow> r < fresh s \<Longrightarrow> r < fresh s'"
  by (simp add: extends_def)

lemma copy_then_set:
  assumes "copyArray s board = (s1, testBoard)"
  shows "heap (setCell s1 testBoard cell v) testBoard = (heap s board)[cell := v]"
    and "extends s (setCell s1 testBoard cell v)"
  using assms by (auto simp: copyArray_def setCell_def extends_def)

lemma scanFor_pure:
  assumes "board < fresh s"
  shows "\<exists>s'. scanFor s board m cells = (s', find (winsAt (heap s board) m) cells) \<and> extends s s'"
  using assms
proof (induction cells arbitrary: s)
  case Nil
  then show ?case by (simp add: extends_refl)
next
  case (Cons cell cells)
  obtain s1 testBoard where c: "copyArray s board = (s1, testBoard)"
    by (cases "copyArray s board")
  let ?s2 = "setCell s1 testBoard cell (Some m)"
  note cs = copy_then_set [OF c, of cell "Some m"]
  have w: "(checkWinner (heap ?s2 testBoard) = Win m) = winsAt (heap s board) m cell"
    by (simp add: cs(1) winsAt_def)
  show ?case
  proof (cases "winsAt (heap s board) m cell")
    case True
    with c cs(2) w show ?thesis by simp
  next
    case False
    from cs(2) Cons.prems have b: "board < fresh ?s2" "heap ?s2 board = heap s board"
      by (auto simp: extends_def)
    from Cons.IH [OF b(1)] b(2) obtain s' where
      "scanFor ?s2 board m cells = (s', find (winsAt (heap s board) m) cells)" "extends ?s2 s'"
      by auto
    with c cs(2) w False show ?thesis
      by (auto intro: extends_trans)
  qed
qed

lemma bestMoveLoop_pure:
  assumes "board < fresh s"
  shows "\<exists>s'. bestMoveLoop s board cells bestScore bestMove =
                 (s', firstBest (rootValue (heap s board)) cells bestScore bestMove)
               \<and> extends s s'"
  using assms
proof (induction cells arbitrary: s bestScore bestMove)
  case Nil
  then show ?case by (simp add: extends_refl)
next
  case (Cons cell cells)
  obtain s1 testBoard where c: "copyArray s board = (s1, testBoard)"
    by (cases "copyArray s board")
  let ?s2 = "setCell s1 testBoard cell (Some MarkO)"
  note cs = copy_then_set [OF c, of cell "Some MarkO"]
  have m: "minimax ?s2 testBoard 0 False = (?s2, rootValue (heap s board) cell)"
    by (simp add: minimax_refines(1) cs(1) rootValue_def)
  from cs(2) Cons.prems have b: "board < fresh ?s2" "heap ?s2 board = heap s board"
    by (auto simp: extends_def)
  show ?case
  proof (cases "rootValue (heap s board) cell > bestScore")
    case True
    from Cons.IH [OF b(1), of "rootValue (heap s board) cell" "Val cell"] b(2) cs(2) c m True
    show ?thesis by (auto intro: extends_trans)
  next
    case False
    from Cons.IH [OF b(1), of bestScore bestMove] b(2) cs(2) c m False
    show ?thesis by (auto intro: extends_trans)
  qed
qed

lemma getAIMove_pure:
  assumes "board < fresh s"
  shows "\<exists>s'. getAIMove s board difficulty random =
                 (s', chooseMove (heap s board) difficulty random) \<and> extends s s'"
proof -
  let ?b = "heap s board"
  have e: "filter (\<lambda>index. ?b ! index = None) [0 ..< length ?b] = emptyCells ?b"
    by (simp add: emptyCells_def)
  obtain s1 where s1: "scanFor s board MarkO (emptyCells ?b) =
      (s1, find (winsAt ?b MarkO) (emptyCells ?b))" "extends s s1"
    using scanFor_pure [OF assms] by blast
  then have b1: "board < fresh s1" "heap s1 board = ?b"
    using assms by (auto simp: extends_def)
  obtain s2 where s2: "scanFor s1 board MarkX (emptyCells ?b) =
      (s2, find (winsAt ?b MarkX) (emptyCells ?b))" "extends s1 s2"
    using scanFor_pure [OF b1(1), of MarkX "emptyCells ?b"] b1(2) by auto
  then have b2: "board < fresh s2" "heap s2 board = ?b" "extends s s2"
    using b1 s1(2) by (auto simp: extends_def)
  obtain s3 where s3: "bestMoveLoop s2 board (emptyCells ?b) NegInfinity (elemAt (emptyCells ?b) 0) =
      (s3, firstBest (rootValue ?b) (emptyCells ?b) NegInfinity (elemAt (emptyCells ?b) 0))"
      "extends s2 s3"
    using bestMoveLoop_pure [OF b2(1)] b2(2) by metis
  then have b3: "extends s s3" using b2(3) by (blast intro: extends_trans)
  show ?thesis
    unfolding getAIMove_def chooseMove_def e Let_def
    using s1 s2 s3 b1 b2 b3
    by (auto simp: extends_refl split: option.splits)
qed

section \<open>What every call of \<open>getAIMove\<close> guarantees\<close>

lemma snd_getAIMove:
  "board < fresh s \<Longrightarrow>
     snd (getAIMove s board difficulty random) = chooseMove (heap s board) difficulty random"
  using getAIMove_pure [of board s difficulty random] by auto

lemma fst_getAIMove:
  "board < fresh s \<Longrightarrow> extends s (fst (getAIMove s board difficulty random))"
  using getAIMove_pure [of board s difficulty random] by auto

lemma emptyCells_iff: "i \<in> set (emptyCells board) \<longleftrightarrow> i < length board \<and> board ! i = None"
  by (auto simp: emptyCells_def)

lemma elemAt_Val_iff: "elemAt xs i = Val v \<longleftrightarrow> i < length xs \<and> xs ! i = v"
  by (auto simp: elemAt_def)

lemma elemAt_mem: "k < length xs \<Longrightarrow> \<exists>x \<in> set xs. elemAt xs k = Val x"
  by (auto simp: elemAt_def)

lemma firstBest_mem:
  "firstBest f cells bestScore bestMove = bestMove \<or>
   (\<exists>c \<in> set cells. firstBest f cells bestScore bestMove = Val c)"
proof (induction cells arbitrary: bestScore bestMove)
  case Nil
  then show ?case by simp
next
  case (Cons cell cells)
  show ?case
  proof (cases "f cell > bestScore")
    case True
    with Cons [of "f cell" "Val cell"] show ?thesis by auto
  next
    case False
    with Cons [of bestScore bestMove] show ?thesis by auto
  qed
qed

lemma chooseMove_mem:
  assumes "emptyCells board \<noteq> []" "\<forall>n > 0. random n < n"
  shows "\<exists>i \<in> set (emptyCells board). chooseMove board difficulty random = Val i"
proof -
  let ?e = "emptyCells board"
  let ?c = "filter (\<lambda>i. elemAt board i = Val None) [0, 2, 6, 8]"
  from assms have r: "\<exists>i \<in> set ?e. elemAt ?e (random (length ?e)) = Val i"
    by (intro elemAt_mem) simp
  have z: "\<exists>i \<in> set ?e. elemAt ?e 0 = Val i"
    using assms(1) by (intro elemAt_mem) simp
  have w: "find (winsAt board m) ?e = Some c \<Longrightarrow> c \<in> set ?e" for m c
    by (auto simp: find_Some_iff)
  have four: "elemAt board 4 = Val None \<Longrightarrow> 4 \<in> set ?e"
    by (simp add: emptyCells_iff elemAt_Val_iff)
  have cs: "set ?c \<subseteq> set ?e"
    by (auto simp: emptyCells_iff elemAt_Val_iff)
  have cr: "?c \<noteq> [] \<Longrightarrow> \<exists>i \<in> set ?e. elemAt ?c (random (length ?c)) = Val i"
  proof -
    assume "?c \<noteq> []"
    with assms(2) have "\<exists>i \<in> set ?c. elemAt ?c (random (length ?c)) = Val i"
      by (intro elemAt_mem) simp
    with cs show ?thesis by blast
  qed
  have h: "\<exists>i \<in> set ?e. firstBest (rootValue board) ?e NegInfinity (elemAt ?e 0) = Val i"
    using firstBest_mem [of "rootValue board" ?e NegInfinity "elemAt ?e 0"] z by auto
  show ?thesis
    unfolding chooseMove_def
    using r w four cr h by (auto split: option.splits)
qed

lemma chooseMove_none:
  assumes "emptyCells board = []"
  shows "chooseMove board difficulty random = Undefined"
proof -
  have "elemAt board i \<noteq> Val None" for i
    using assms emptyCells_iff [of i board] by (auto simp: elemAt_Val_iff)
  with assms show ?thesis
    by (simp add: chooseMove_def elemAt_def)
qed

lemma chooseMove_hard_random:
  "chooseMove board Hard random1 = chooseMove board Hard random2"
  by (simp add: chooseMove_def)

text \<open>
  Claim C8. For every 9-cell board with at least one empty cell, every difficulty and
  every outcome of the random draw (any \<open>random\<close> with \<open>random n < n\<close> for \<open>n > 0\<close>),
  \<open>getAIMove\<close> returns an index \<open>i\<close> with \<open>0 \<le> i \<le> 8\<close> whose cell of the input board is
  empty.
\<close>

theorem getAIMove_valid_move:
  assumes "board < fresh s" and "length (heap s board) = 9"
    and "\<exists>i < 9. heap s board ! i = None" and "\<forall>n > 0. random n < n"
  shows "\<exists>i. snd (getAIMove s board difficulty random) = Val i \<and> i \<le> 8
             \<and> heap s board ! i = None"
proof -
  from assms(2,3) have "emptyCells (heap s board) \<noteq> []"
    using emptyCells_iff [of _ "heap s board"] by (metis empty_iff empty_set)
  from chooseMove_mem [OF this assms(4), of difficulty] assms(1,2) show ?thesis
    by (auto simp: snd_getAIMove emptyCells_iff)
qed

text \<open>
  Claim C7. At difficulty hard the move is a function of the board's contents alone:
  two calls on arrays with the same contents return the same move, whatever the two
  stores and whatever the random draws would have been.
\<close>

theorem hard_deterministic:
  assumes "board1 < fresh s1" and "board2 < fresh s2" and "heap s1 board1 = heap s2 board2"
  shows "snd (getAIMove s1 board1 Hard random1) = snd (getAIMove s2 board2 Hard random2)"
  using assms by (simp add: snd_getAIMove chooseMove_hard_random [of _ random1 random2])

text \<open>
  Claim C6. A call of \<open>getAIMove\<close>, at any difficulty and for any random draw, leaves the
  input board as it was, cell for cell, and with it every array that existed before the
  call: the hypothetical placements of the scans and of the root loop go into copies,
  and \<open>minimax\<close> hands back the very store it was given, each placement undone.
  \<open>checkWinner\<close> has no write at all: it is a function of the contents it reads.
\<close>

theorem getAIMove_frame:
  assumes "board < fresh s"
  shows "heap (fst (getAIMove s board difficulty random)) board = heap s board
       \<and> (\<forall>r < fresh s. heap (fst (getAIMove s board difficulty random)) r = heap s r)
       \<and> fst (minimax s board depth isMaximizing) = s"
  using fst_getAIMove [OF assms, of difficulty random] assms
  by (simp add: extends_def minimax_refines(1))

text \<open>
  Claim C5, as amended. On a board with no empty cell \<open>getAIMove\<close> raises no error: at
  every difficulty and for every random draw it returns \<open>undefined\<close>, the element read
  at index 0 (or at the drawn index) of the empty array \<open>emptyCells\<close>.
\<close>

theorem getAIMove_no_empty_cell:
  assumes "board < fresh s" and "None \<notin> set (heap s board)"
  shows "snd (getAIMove s board difficulty random) = Undefined"
proof -
  have "emptyCells (heap s board) = []"
  proof (rule ccontr)
    assume "emptyCells (heap s board) \<noteq> []"
    then obtain i where "i \<in> set (emptyCells (heap s board))"
      by (meson last_in_set)
    then have "i < length (heap s board)" "heap s board ! i = None"
      by (simp_all add: emptyCells_iff)
    with assms(2) show False by (metis nth_mem)
  qed
  with assms(1) show ?thesis by (simp add: snd_getAIMove chooseMove_none)
qed


lemma storeOf_simps: "fresh (storeOf board) = 1" "heap (storeOf board) 0 = board"
  by (simp_all add: storeOf_def)

theorem getAIMove_valid_move_witness:
  "\<exists>i. snd (getAIMove (storeOf twoInRow) 0 Easy (\<lambda>n. n - 1)) = Val i \<and> i \<le> 8
       \<and> heap (storeOf twoInRow) 0 ! i = None"
proof (rule getAIMove_valid_move)
  show "0 < fresh (storeOf twoInRow)" by (simp add: storeOf_simps)
  show "length (heap (storeOf twoInRow) 0) = 9" by (simp add: storeOf_simps twoInRow_def)
  show "\<exists>i < 9. heap (storeOf twoInRow) 0 ! i = None"
    by (rule exI [of _ 2]) (simp add: storeOf_simps twoInRow_def)
  show "\<forall>n > 0. n - 1 < (n::nat)" by simp
qed

theorem hard_deterministic_witness:
  "snd (getAIMove (storeOf twoInRow) 0 Hard (\<lambda>n. 0))
   = snd (getAIMove \<lparr> heap = (\<lambda>r. [])(1 := twoInRow), fresh = 2 \<rparr> 1 Hard (\<lambda>n. n - 1))"
  by (rule hard_deterministic) (simp_all add: storeOf_simps)

theorem getAIMove_frame_witness:
  "heap (fst (getAIMove (storeOf twoInRow) 0 Hard (\<lambda>n. 0))) 0 = twoInRow
   \<and> fst (minimax (storeOf twoInRow) 0 0 True) = storeOf twoInRow"
  using getAIMove_frame [of 0 "storeOf twoInRow" Hard "\<lambda>n. 0" 0 True]
  by (simp add: storeOf_simps)

theorem getAIMove_no_empty_cell_witness:
  "snd (getAIMove (storeOf fullBoard) 0 Medium (\<lambda>n. 0)) = Undefined"
  by (rule getAIMove_no_empty_cell) (simp_all add: storeOf_simps fullBoard_def)

text \<open>
  Claim C5 as stated fails: on the full, drawn board \<open>X O X / X O O / O X X\<close> the call
  returns normally, with the value \<open>undefined\<close>, at difficulty hard and at difficulty
  easy; no error is signalled.
\<close>

theorem getAIMove_full_board_returns_undefined:
  "checkWinner fullBoard = Draw
   \<and> snd (getAIMove (storeOf fullBoard) 0 Hard (\<lambda>n. 0)) = Undefined
   \<and> snd (getAIMove (storeOf fullBoard) 0 Easy (\<lambda>n. 0)) = Undefined"
proof -
  have "emptyCells fullBoard = []" by (simp add: emptyCells_def fullBoard_def)
  then have "chooseMove fullBoard d r = Undefined" for d r by (rule chooseMove_none)
  moreover have "checkWinner fullBoard = Draw"
    by (simp add: checkWinner_def fullBoard_def lines_def elemAt_def)
  ultimately show ?thesis by (simp add: snd_getAIMove storeOf_simps)
qed

section \<open>The two scans: winning and blocking moves\<close>

lemma find_complete_None:
  assumes "length board = 9"
  shows "(find (complete board) lines = None) = (checkWinner board = Draw \<or> checkWinner board = InProgress)"
proof (cases "find (complete board) lines")
  case None
  with assms show ?thesis by (simp add: checkWinner_def checkLines_9)
next
  case (Some l)
  then have "complete board l" by (auto simp: find_Some_iff)
  then obtain m where "lineMark board l = Some m"
    by (cases l) (auto simp: complete_def lineMark_def)
  with Some assms show ?thesis by (simp add: checkWinner_def checkLines_9)
qed

lemma no_complete_line:
  assumes "length board = 9" "checkWinner board = Draw \<or> checkWinner board = InProgress"
    and "l \<in> set lines"
  shows "\<not> complete board l"
proof -
  from assms(1,2) have "find (complete board) lines = None"
    by (simp add: find_complete_None)
  with assms(3) show ?thesis
    using find_None_iff [of "complete board" lines] by blast
qed

lemma checkWinner_Win_iff:
  assumes "length board = 9"
  shows "(checkWinner board = Win m) =
           (\<exists>l. find (complete board) lines = Some l \<and> lineMark board l = Some m)"
  using assms
  by (cases "find (complete board) lines")
     (auto simp: checkWinner_def checkLines_9 split: option.splits)

lemma complete_off_line:
  "\<not> onLine cell l \<Longrightarrow> complete (board[cell := v]) l = complete board l"
  by (cases l) (auto simp: onLine_def complete_def)

lemma complete_on_line:
  assumes "onLine cell l" "l \<in> set lines" "length board = 9"
    and "complete (board[cell := Some m]) l"
  shows "lineMark (board[cell := Some m]) l = Some m"
proof -
  obtain a b c where l: "l = (a, b, c)" by (cases l) auto
  with assms(2) have "a < 9" "b < 9" "c < 9" using lines_in_range by auto
  with assms l show ?thesis
    by (auto simp: onLine_def complete_def lineMark_def nth_list_update)
qed

lemma winsAt_iff:
  assumes "length board = 9" "checkWinner board = InProgress" "board ! cell = None"
  shows "winsAt board m cell = completesLine board m cell"
proof
  let ?b = "board[cell := Some m]"
  have len: "length ?b = 9" using assms(1) by simp
  have on: "onLine cell l" if "l \<in> set lines" "complete ?b l" for l
  proof (rule ccontr)
    assume "\<not> onLine cell l"
    with that(2) have "complete board l" by (simp add: complete_off_line)
    with no_complete_line [OF assms(1) _ that(1)] assms(2) show False by simp
  qed
  {
    assume "winsAt board m cell"
    then obtain l where l: "find (complete ?b) lines = Some l"
      by (auto simp: winsAt_def checkWinner_Win_iff [OF len])
    then have "l \<in> set lines" "complete ?b l"
      by (auto simp: find_Some_iff)
    with on [of l] assms(3) show "completesLine board m cell"
      by (auto simp: completesLine_def)
  }
  {
    assume "completesLine board m cell"
    then obtain l0 where "l0 \<in> set lines" "complete ?b l0"
      by (auto simp: completesLine_def)
    then have "\<exists>x. x \<in> set lines \<and> complete ?b x" by blast
    then have "find (complete ?b) lines \<noteq> None"
      using find_None_iff [of "complete ?b" lines] by blast
    then obtain l where l: "find (complete ?b) lines = Some l" by auto
    then have l2: "l \<in> set lines" "complete ?b l"
      by (auto simp: find_Some_iff)
    from complete_on_line [OF on [OF l2] l2(1) assms(1) l2(2)] l
    show "winsAt board m cell"
      by (auto simp: winsAt_def checkWinner_Win_iff [OF len])
  }
qed

lemma sorted_emptyCells: "sorted (emptyCells board)" "distinct (emptyCells board)"
  by (simp_all add: emptyCells_def sorted_wrt_filter)

lemma find_least:
  assumes "sorted xs" "find P xs = Some c"
  shows "c \<in> set xs \<and> P c \<and> (\<forall>c' \<in> set xs. c' < c \<longrightarrow> \<not> P c')"
  using assms
proof (induction xs)
  case Nil
  then show ?case by simp
next
  case (Cons x xs)
  then show ?case by (cases "P x") (auto simp: not_less)
qed

lemma scan_result:
  assumes "length board = 9" "checkWinner board = InProgress"
  shows "find (winsAt board m) (emptyCells board) = Some c \<longleftrightarrow>
           c < 9 \<and> completesLine board m c \<and> (\<forall>c' < c. \<not> completesLine board m c')"
proof
  assume f: "find (winsAt board m) (emptyCells board) = Some c"
  from find_least [OF sorted_emptyCells(1) f]
  have c: "c \<in> set (emptyCells board)" "winsAt board m c"
    and least: "\<And>c'. c' \<in> set (emptyCells board) \<Longrightarrow> c' < c \<Longrightarrow> \<not> winsAt board m c'"
    by auto
  from c(1) assms(1) have c9: "c < 9" "board ! c = None" by (auto simp: emptyCells_iff)
  have "\<not> completesLine board m c'" if "c' < c" for c'
  proof
    assume cl: "completesLine board m c'"
    then have e: "board ! c' = None" by (simp add: completesLine_def)
    with that c9 assms(1) have "c' \<in> set (emptyCells board)" by (simp add: emptyCells_iff)
    from least [OF this that] winsAt_iff [OF assms e] cl show False by simp
  qed
  with c c9 winsAt_iff [OF assms c9(2)]
  show "c < 9 \<and> completesLine board m c \<and> (\<forall>c' < c. \<not> completesLine board m c')" by simp
next
  assume r: "c < 9 \<and> completesLine board m c \<and> (\<forall>c' < c. \<not> completesLine board m c')"
  then have e: "board ! c = None" by (simp add: completesLine_def)
  with r assms(1) have mem: "c \<in> set (emptyCells board)" by (simp add: emptyCells_iff)
  from r winsAt_iff [OF assms e] have w: "winsAt board m c" by simp
  with mem have "find (winsAt board m) (emptyCells board) \<noteq> None"
    by (auto simp: find_None_iff)
  then obtain d where d: "find (winsAt board m) (emptyCells board) = Some d" by auto
  from find_least [OF sorted_emptyCells(1) d]
  have d2: "d \<in> set (emptyCells board)" "winsAt board m d"
    and least: "\<And>c'. c' \<in> set (emptyCells board) \<Longrightarrow> c' < d \<Longrightarrow> \<not> winsAt board m c'"
    by auto
  from d2 have "completesLine board m d"
    using winsAt_iff [OF assms, of d m] by (simp add: emptyCells_iff)
  with r have "\<not> d < c" by auto
  moreover from least [OF mem] w have "\<not> c < d" by auto
  ultimately show "find (winsAt board m) (emptyCells board) = Some c" using d by simp
qed

lemma scan_none:
  assumes "length board = 9" "checkWinner board = InProgress"
  shows "find (winsAt board m) (emptyCells board) = None \<longleftrightarrow> (\<forall>c < 9. \<not> completesLine board m c)"
proof
  assume n: "find (winsAt board m) (emptyCells board) = None"
  show "\<forall>c < 9. \<not> completesLine board m c"
  proof (intro allI impI notI)
    fix c assume c: "c < (9::nat)" "completesLine board m c"
    then have e: "board ! c = None" by (simp add: completesLine_def)
    with c assms(1) have "c \<in> set (emptyCells board)" by (simp add: emptyCells_iff)
    with n have "\<not> winsAt board m c" by (auto simp: find_None_iff)
    with winsAt_iff [OF assms e] c show False by simp
  qed
next
  assume a: "\<forall>c < 9. \<not> completesLine board m c"
  show "find (winsAt board m) (emptyCells board) = None"
  proof (rule ccontr)
    assume "find (winsAt board m) (emptyCells board) \<noteq> None"
    then obtain c where "find (winsAt board m) (emptyCells board) = Some c" by auto
    with scan_result [OF assms] a show False by blast
  qed
qed

lemmas eval_defs = chooseMove_def emptyCells_def winsAt_def checkWinner_def lines_def elemAt_def

lemma medium_winAndBlock: "chooseMove winAndBlock Medium random = Val 2"
  by (simp add: eval_defs winAndBlock_def)

lemma medium_twoInRow: "chooseMove twoInRow Medium random = Val 2"
  by (simp add: eval_defs twoInRow_def)

lemma chooseMove_scan_O:
  assumes "find (winsAt board MarkO) (emptyCells board) = Some c" "difficulty \<noteq> Easy"
  shows "chooseMove board difficulty random = Val c"
  using assms by (simp add: chooseMove_def)

lemma chooseMove_scan_X:
  assumes "find (winsAt board MarkO) (emptyCells board) = None"
    "find (winsAt board MarkX) (emptyCells board) = Some c" "difficulty \<noteq> Easy"
  shows "chooseMove board difficulty random = Val c"
  using assms by (simp add: chooseMove_def)

lemma least_exists:
  assumes "\<exists>c < (9::nat). P c"
  shows "\<exists>c < 9. P c \<and> (\<forall>c' < c. \<not> P c')"
proof -
  from assms obtain c where c: "c < 9" "P c" by blast
  define k where "k = (LEAST c. P c)"
  have pk: "P k" unfolding k_def using c(2) by (rule LeastI)
  have "k \<le> c" unfolding k_def using c(2) by (rule Least_le)
  with c(1) have k9: "k < 9" by simp
  have least: "\<not> P c'" if "c' < k" for c'
    using that unfolding k_def by (rule not_less_Least)
  from k9 pk least show ?thesis by blast
qed

text \<open>
  Claim C4. On every non-terminal 9-cell board, \<open>getAIMove\<close> at difficulty medium returns
  an empty cell that completes a line for \<open>'O'\<close> whenever there is one; when there is
  none but some empty cell would complete a line for \<open>'X'\<close>, it returns such a cell.
  On \<open>['O','O',null,'X','X',null,null,null,null]\<close> it returns 2, and on
  \<open>['X','X',null,null,null,null,null,null,null]\<close> it returns 2.
\<close>

theorem medium_wins_or_blocks:
  assumes "board < fresh s" and "length (heap s board) = 9"
    and "checkWinner (heap s board) = InProgress"
  shows "((\<exists>c < 9. completesLine (heap s board) MarkO c) \<longrightarrow>
            (\<exists>c < 9. snd (getAIMove s board Medium random) = Val c
                    \<and> completesLine (heap s board) MarkO c))
       \<and> ((\<forall>c < 9. \<not> completesLine (heap s board) MarkO c)
            \<and> (\<exists>c < 9. completesLine (heap s board) MarkX c) \<longrightarrow>
            (\<exists>c < 9. snd (getAIMove s board Medium random) = Val c
                    \<and> completesLine (heap s board) MarkX c))
       \<and> snd (getAIMove (storeOf winAndBlock) 0 Medium random) = Val 2
       \<and> snd (getAIMove (storeOf twoInRow) 0 Medium random) = Val 2"
proof (intro conjI impI)
  let ?b = "heap s board"
  note sr = scan_result [OF assms(2,3)]
  note sn = scan_none [OF assms(2,3)]
  {
    assume "\<exists>c < 9. completesLine ?b MarkO c"
    from least_exists [OF this] obtain c
      where c: "c < 9" "completesLine ?b MarkO c" "\<forall>c' < c. \<not> completesLine ?b MarkO c'"
      by blast
    then have "find (winsAt ?b MarkO) (emptyCells ?b) = Some c" by (simp add: sr)
    then have "chooseMove ?b Medium random = Val c" by (simp add: chooseMove_scan_O)
    with c assms(1)
    show "\<exists>c < 9. snd (getAIMove s board Medium random) = Val c \<and> completesLine ?b MarkO c"
      by (auto simp: snd_getAIMove)
  }
  {
    assume a: "(\<forall>c < 9. \<not> completesLine ?b MarkO c) \<and> (\<exists>c < 9. completesLine ?b MarkX c)"
    then have n: "find (winsAt ?b MarkO) (emptyCells ?b) = None" by (simp add: sn)
    from a have "\<exists>c < 9. completesLine ?b MarkX c" by simp
    from least_exists [OF this] obtain c
      where c: "c < 9" "completesLine ?b MarkX c" "\<forall>c' < c. \<not> completesLine ?b MarkX c'"
      by blast
    then have "find (winsAt ?b MarkX) (emptyCells ?b) = Some c" by (simp add: sr)
    with n have "chooseMove ?b Medium random = Val c" by (simp add: chooseMove_scan_X)
    with c assms(1)
    show "\<exists>c < 9. snd (getAIMove s board Medium random) = Val c \<and> completesLine ?b MarkX c"
      by (auto simp: snd_getAIMove)
  }
  show "snd (getAIMove (storeOf winAndBlock) 0 Medium random) = Val 2"
    by (simp add: snd_getAIMove storeOf_simps medium_winAndBlock)
  show "snd (getAIMove (storeOf twoInRow) 0 Medium random) = Val 2"
    by (simp add: snd_getAIMove storeOf_simps medium_twoInRow)
qed


lemma winAndBlock_facts:
  "checkWinner winAndBlock = InProgress" "length winAndBlock = 9"
  "completesLine winAndBlock MarkO 2"
  "\<forall>c' < 2. \<not> completesLine winAndBlock MarkO c'"
  by (simp_all add: checkWinner_def winAndBlock_def lines_def elemAt_def completesLine_def
        onLine_def complete_def less_Suc_eq numeral_2_eq_2)

theorem medium_wins_or_blocks_witness:
  "\<exists>c < 9. snd (getAIMove (storeOf winAndBlock) 0 Medium (\<lambda>n. 0)) = Val c
          \<and> completesLine winAndBlock MarkO c"
proof -
  have "\<exists>c < 9. completesLine (heap (storeOf winAndBlock) 0) MarkO c"
    by (rule exI [of _ 2]) (simp add: storeOf_simps winAndBlock_facts)
  with medium_wins_or_blocks [of 0 "storeOf winAndBlock" "\<lambda>n. 0"]
  show ?thesis by (simp add: storeOf_simps winAndBlock_facts)
qed


section \<open>Bounds on the minimax value\<close>

lemma fold_max_le_iff: "fold max xs a \<le> (u::score) \<longleftrightarrow> a \<le> u \<and> (\<forall>x \<in> set xs. x \<le> u)"
  by (induction xs arbitrary: a) auto

lemma le_fold_max_iff: "(l::score) \<le> fold max xs a \<longleftrightarrow> l \<le> a \<or> (\<exists>x \<in> set xs. l \<le> x)"
  by (induction xs arbitrary: a) (auto simp: le_max_iff_disj)

lemma le_fold_min_iff: "(l::score) \<le> fold min xs a \<longleftrightarrow> l \<le> a \<and> (\<forall>x \<in> set xs. l \<le> x)"
  by (induction xs arbitrary: a) auto

lemma fold_min_le_iff: "fold min xs a \<le> (u::score) \<longleftrightarrow> a \<le> u \<or> (\<exists>x \<in> set xs. x \<le> u)"
  by (induction xs arbitrary: a) (auto simp: min_le_iff_disj)

lemma score_le_simps [simp]:
  "NegInfinity \<le> x" "x \<le> Infinity" "Score a \<le> Score b \<longleftrightarrow> a \<le> b"
  "\<not> Score a \<le> NegInfinity" "\<not> Infinity \<le> Score a" "\<not> Infinity \<le> NegInfinity"
  by (cases x; simp)+

lemma score_less_simps [simp]:
  "Score a < Score b \<longleftrightarrow> a < b" "NegInfinity < Score a" "Score a < Infinity"
  "NegInfinity < Infinity" "\<not> x < NegInfinity" "\<not> Infinity < x"
  by (auto simp: less_score_def)

lemma maximum_le_iff: "maximum xs \<le> u \<longleftrightarrow> (\<forall>x \<in> set xs. x \<le> u)"
  by (simp add: maximum_def fold_max_le_iff)

lemma le_maximum_iff: "Score l \<le> maximum xs \<longleftrightarrow> (\<exists>x \<in> set xs. Score l \<le> x)"
  by (simp add: maximum_def le_fold_max_iff)

lemma le_minimum_iff: "l \<le> minimum xs \<longleftrightarrow> (\<forall>x \<in> set xs. l \<le> x)"
  by (simp add: minimum_def le_fold_min_iff)

lemma minimum_le_iff: "minimum xs \<le> Score u \<longleftrightarrow> (\<exists>x \<in> set xs. x \<le> Score u)"
  by (simp add: minimum_def fold_min_le_iff)

lemma moves_iff: "i \<in> set (moves board) \<longleftrightarrow> i < 9 \<and> i < length board \<and> board ! i = None"
  by (auto simp: moves_def elemAt_Val_iff)

lemma moves_9: "length board = 9 \<Longrightarrow> i \<in> set (moves board) \<longleftrightarrow> i < 9 \<and> board ! i = None"
  by (auto simp: moves_iff)

lemma InProgress_has_move:
  assumes "checkWinner board = InProgress" "length board = 9"
  shows "\<exists>i. i \<in> set (moves board)"
proof -
  from assms(1) have "\<not> list_all (\<lambda>cell. cell \<noteq> None) board"
    by (auto simp: checkWinner_def split: option.splits if_splits)
  then obtain i where "i < length board" "board ! i = None"
    by (auto simp: list_all_index)
  with assms(2) show ?thesis by (auto simp: moves_iff)
qed

lemma Draw_full:
  assumes "checkWinner board = Draw"
  shows "None \<notin> set board"
  using assms by (auto simp: checkWinner_def list_all_iff split: option.splits if_splits)

lemma minimax_value_Win:
  "checkWinner board = Win MarkO \<Longrightarrow> minimax_value board depth isMax = Score (10 - depth)"
  "checkWinner board = Win MarkX \<Longrightarrow> minimax_value board depth isMax = Score (depth - 10)"
  "checkWinner board = Draw \<Longrightarrow> minimax_value board depth isMax = Score 0"
  by (simp_all add: minimax_value.simps [of board])

lemma minimax_value_max:
  "checkWinner board = InProgress \<Longrightarrow> minimax_value board depth True =
     maximum (map (\<lambda>i. minimax_value (board[i := Some MarkO]) (depth + 1) False) (moves board))"
  by (simp add: minimax_value.simps [of board])

lemma minimax_value_min:
  "checkWinner board = InProgress \<Longrightarrow> minimax_value board depth False =
     minimum (map (\<lambda>i. minimax_value (board[i := Some MarkX]) (depth + 1) True) (moves board))"
  by (simp add: minimax_value.simps [of board])

lemma minimax_value_bounds:
  assumes "length board = 9" "0 \<le> depth" "depth + int (nulls board) \<le> 10"
  shows "Score (depth - 10) \<le> minimax_value board depth isMax
       \<and> minimax_value board depth isMax \<le> Score (10 - depth)"
  using assms
proof (induction board depth isMax rule: minimax_value.induct)
  case (1 board depth isMax)
  show ?case
  proof (cases "checkWinner board")
    case (Win m)
    with 1(4,5) show ?thesis by (cases m) (simp_all add: minimax_value_Win)
  next
    case Draw
    with 1(4,5) show ?thesis by (simp add: minimax_value_Win)
  next
    case InProgress
    from InProgress_has_move [OF InProgress 1(3)] obtain j where j: "j \<in> set (moves board)" ..
    have sub: "length (board[i := Some m]) = 9 \<and> 0 \<le> depth + 1
               \<and> depth + 1 + int (nulls (board[i := Some m])) \<le> 10"
      if "i \<in> set (moves board)" for i m
      using nulls_moves [OF that, of m] 1(3,4,5) by simp
    show ?thesis
    proof (cases isMax)
      case True
      have ih: "Score (depth + 1 - 10) \<le> minimax_value (board[i := Some MarkO]) (depth + 1) False
                \<and> minimax_value (board[i := Some MarkO]) (depth + 1) False \<le> Score (10 - (depth + 1))"
        if "i \<in> set (moves board)" for i
        using 1(1) [OF InProgress True that] sub [OF that] by blast
      have "Score (depth - 10) \<le> minimax_value (board[j := Some MarkO]) (depth + 1) False"
        using ih [OF j] by (cases "minimax_value (board[j := Some MarkO]) (depth + 1) False") auto
      moreover have "minimax_value (board[i := Some MarkO]) (depth + 1) False \<le> Score (10 - depth)"
        if "i \<in> set (moves board)" for i
        using ih [OF that] by (cases "minimax_value (board[i := Some MarkO]) (depth + 1) False") auto
      ultimately show ?thesis
        using j True by (auto simp: minimax_value_max [OF InProgress] le_maximum_iff maximum_le_iff)
    next
      case False
      have ih: "Score (depth + 1 - 10) \<le> minimax_value (board[i := Some MarkX]) (depth + 1) True
                \<and> minimax_value (board[i := Some MarkX]) (depth + 1) True \<le> Score (10 - (depth + 1))"
        if "i \<in> set (moves board)" for i
        using 1(2) [OF InProgress False that] sub [OF that] by blast
      have "minimax_value (board[j := Some MarkX]) (depth + 1) True \<le> Score (10 - depth)"
        using ih [OF j] by (cases "minimax_value (board[j := Some MarkX]) (depth + 1) True") auto
      moreover have "Score (depth - 10) \<le> minimax_value (board[i := Some MarkX]) (depth + 1) True"
        if "i \<in> set (moves board)" for i
        using ih [OF that] by (cases "minimax_value (board[i := Some MarkX]) (depth + 1) True") auto
      ultimately show ?thesis
        using j False by (auto simp: minimax_value_min [OF InProgress] le_minimum_iff minimum_le_iff)
    qed
  qed
qed

lemma nulls_le_length: "nulls board \<le> length board"
  by (simp add: nulls_def)

subsection \<open>The root loop returns the first move of highest value\<close>

lemma firstBest_later:
  "\<exists>c. firstBest f cells (f b0) (Val b0) = Val c
       \<and> (c = b0 \<and> (\<forall>x \<in> set cells. f x \<le> f b0)
          \<or> (\<exists>pre post. cells = pre @ c # post \<and> f b0 < f c
               \<and> (\<forall>x \<in> set pre. f x < f c) \<and> (\<forall>x \<in> set post. f x \<le> f c)))"
proof (induction cells arbitrary: b0)
  case Nil
  then show ?case by simp
next
  case (Cons cell cells)
  show ?case
  proof (cases "f cell > f b0")
    case True
    from Cons [of cell] obtain c where c: "firstBest f cells (f cell) (Val cell) = Val c"
      and d: "c = cell \<and> (\<forall>x \<in> set cells. f x \<le> f cell)
          \<or> (\<exists>pre post. cells = pre @ c # post \<and> f cell < f c
               \<and> (\<forall>x \<in> set pre. f x < f c) \<and> (\<forall>x \<in> set post. f x \<le> f c))"
      by blast
    from d show ?thesis
    proof
      assume "c = cell \<and> (\<forall>x \<in> set cells. f x \<le> f cell)"
      with True c have "firstBest f (cell # cells) (f b0) (Val b0) = Val c
        \<and> cell # cells = [] @ c # cells \<and> f b0 < f c
        \<and> (\<forall>x \<in> set []. f x < f c) \<and> (\<forall>x \<in> set cells. f x \<le> f c)"
        by simp
      then show ?thesis by blast
    next
      assume "\<exists>pre post. cells = pre @ c # post \<and> f cell < f c
               \<and> (\<forall>x \<in> set pre. f x < f c) \<and> (\<forall>x \<in> set post. f x \<le> f c)"
      then obtain pre post where p: "cells = pre @ c # post" "f cell < f c"
        "\<forall>x \<in> set pre. f x < f c" "\<forall>x \<in> set post. f x \<le> f c" by blast
      with True c have "firstBest f (cell # cells) (f b0) (Val b0) = Val c
        \<and> cell # cells = (cell # pre) @ c # post \<and> f b0 < f c
        \<and> (\<forall>x \<in> set (cell # pre). f x < f c) \<and> (\<forall>x \<in> set post. f x \<le> f c)"
        by auto
      then show ?thesis by blast
    qed
  next
    case False
    from Cons [of b0] obtain c where c: "firstBest f cells (f b0) (Val b0) = Val c"
      and d: "c = b0 \<and> (\<forall>x \<in> set cells. f x \<le> f b0)
          \<or> (\<exists>pre post. cells = pre @ c # post \<and> f b0 < f c
               \<and> (\<forall>x \<in> set pre. f x < f c) \<and> (\<forall>x \<in> set post. f x \<le> f c))"
      by blast
    from d show ?thesis
    proof
      assume "c = b0 \<and> (\<forall>x \<in> set cells. f x \<le> f b0)"
      with False c show ?thesis by auto
    next
      assume "\<exists>pre post. cells = pre @ c # post \<and> f b0 < f c
               \<and> (\<forall>x \<in> set pre. f x < f c) \<and> (\<forall>x \<in> set post. f x \<le> f c)"
      then obtain pre post where p: "cells = pre @ c # post" "f b0 < f c"
        "\<forall>x \<in> set pre. f x < f c" "\<forall>x \<in> set post. f x \<le> f c" by blast
      with False c have "firstBest f (cell # cells) (f b0) (Val b0) = Val c
        \<and> cell # cells = (cell # pre) @ c # post \<and> f b0 < f c
        \<and> (\<forall>x \<in> set (cell # pre). f x < f c) \<and> (\<forall>x \<in> set post. f x \<le> f c)"
        by auto
      then show ?thesis by blast
    qed
  qed
qed

lemma firstBest_first_argmax:
  assumes "cells \<noteq> []" "sorted cells" "distinct cells"
  shows "\<exists>c \<in> set cells. firstBest f cells NegInfinity (elemAt cells 0) = Val c
           \<and> (\<forall>x \<in> set cells. f x \<le> f c) \<and> (\<forall>x \<in> set cells. x < c \<longrightarrow> f x < f c)"
proof -
  from assms(1) obtain c0 cs where cells: "cells = c0 # cs" by (cases cells) auto
  have start: "firstBest f cells NegInfinity (elemAt cells 0) = firstBest f cs (f c0) (Val c0)"
  proof (cases "f c0 > NegInfinity")
    case True
    then show ?thesis by (simp add: cells elemAt_def)
  next
    case False
    then have "f c0 = NegInfinity" by (cases "f c0") auto
    then show ?thesis by (simp add: cells elemAt_def)
  qed
  from firstBest_later [of f cs c0] obtain c where c: "firstBest f cs (f c0) (Val c0) = Val c"
    and d: "c = c0 \<and> (\<forall>x \<in> set cs. f x \<le> f c0)
          \<or> (\<exists>pre post. cs = pre @ c # post \<and> f c0 < f c
               \<and> (\<forall>x \<in> set pre. f x < f c) \<and> (\<forall>x \<in> set post. f x \<le> f c))"
    by blast
  from d show ?thesis
  proof
    assume a: "c = c0 \<and> (\<forall>x \<in> set cs. f x \<le> f c0)"
    moreover from assms(2) cells have "\<forall>x \<in> set cells. \<not> x < c0" by auto
    ultimately show ?thesis using start c cells by auto
  next
    assume "\<exists>pre post. cs = pre @ c # post \<and> f c0 < f c
               \<and> (\<forall>x \<in> set pre. f x < f c) \<and> (\<forall>x \<in> set post. f x \<le> f c)"
    then obtain pre post where p: "cs = pre @ c # post" "f c0 < f c"
      "\<forall>x \<in> set pre. f x < f c" "\<forall>x \<in> set post. f x \<le> f c" by blast
    from assms(2,3) cells p(1) have "\<forall>x \<in> set post. c < x"
      by (auto simp: sorted_append le_less)
    with p cells have "\<forall>x \<in> set cells. x < c \<longrightarrow> f x < f c" by auto
    moreover from p cells have "\<forall>x \<in> set cells. f x \<le> f c" by auto
    moreover from p cells have "c \<in> set cells" by simp
    ultimately show ?thesis using start c by auto
  qed
qed

section \<open>The hard difficulty returns the first move of highest value\<close>

lemma complete_all_marks:
  assumes "complete board l" "onLine c l"
  shows "board ! c \<noteq> None \<and> board ! c = lineMark board l"
  using assms by (cases l) (auto simp: complete_def onLine_def lineMark_def)

lemma after_move:
  assumes "length board = 9" "checkWinner board = InProgress"
    and "checkWinner (board[c := Some m]) = Win m'"
  shows "m' = m \<and> winsAt board m c"
proof -
  let ?b = "board[c := Some m]"
  have len: "length ?b = 9" using assms(1) by simp
  from assms(3) obtain l where l: "find (complete ?b) lines = Some l" "lineMark ?b l = Some m'"
    by (auto simp: checkWinner_Win_iff [OF len])
  then have l2: "l \<in> set lines" "complete ?b l" by (auto simp: find_Some_iff)
  have "onLine c l"
  proof (rule ccontr)
    assume "\<not> onLine c l"
    with l2(2) have "complete board l" by (simp add: complete_off_line)
    with no_complete_line [OF assms(1) _ l2(1)] assms(2) show False by simp
  qed
  from complete_on_line [OF this l2(1) assms(1) l2(2)] l(2) have "m' = m" by simp
  with assms(3) show ?thesis by (simp add: winsAt_def)
qed

lemma completesLine_mono:
  assumes "completesLine board m x" "c \<noteq> x" "board ! c = None"
  shows "completesLine (board[c := v]) m x"
proof -
  from assms(1) obtain l where l: "l \<in> set lines" "onLine x l" "complete (board[x := Some m]) l"
    and e: "board ! x = None"
    by (auto simp: completesLine_def)
  have "\<not> onLine c l"
  proof
    assume "onLine c l"
    from complete_all_marks [OF l(3) this] assms(2,3) show False by simp
  qed
  then have "complete (board[x := Some m, c := v]) l" using l(3) by (simp add: complete_off_line)
  then have "complete (board[c := v, x := Some m]) l"
    using assms(2) by (simp add: list_update_swap)
  with l(1,2) e assms(2) show ?thesis by (auto simp: completesLine_def)
qed

lemma completesLine_antimono:
  assumes "completesLine (board[c := Some m']) m x" "m' \<noteq> m" "c \<noteq> x" "length board = 9" "c < 9"
  shows "completesLine board m x"
proof -
  from assms(1) obtain l where l: "l \<in> set lines" "onLine x l"
      "complete (board[c := Some m', x := Some m]) l"
    and e: "board[c := Some m'] ! x = None"
    by (auto simp: completesLine_def)
  obtain p q r where pqr: "l = (p, q, r)" by (cases l) auto
  with l(1) have rng: "p < 9" "q < 9" "r < 9" using lines_in_range by auto
  with l(2) pqr have x9: "x < 9" by (auto simp: onLine_def)
  have "\<not> onLine c l"
  proof
    assume on: "onLine c l"
    from complete_all_marks [OF l(3) on] complete_all_marks [OF l(3) l(2)]
    show False using assms(2,3,4,5) x9 by simp
  qed
  then have "complete (board[x := Some m]) l"
    using l(3) assms(3) by (simp add: list_update_swap [of c x] complete_off_line)
  with l(1,2) e assms(3) show ?thesis by (auto simp: completesLine_def)
qed

lemma rootValue_win:
  assumes "winsAt board MarkO c"
  shows "rootValue board c = Score 10"
  using assms by (simp add: rootValue_def winsAt_def minimax_value_Win)

lemma rootValue_upper:
  assumes "length board = 9"
  shows "rootValue board c \<le> Score 10"
proof -
  have "int (nulls (board[c := Some MarkO])) \<le> 10"
    using nulls_le_length [of "board[c := Some MarkO]"] assms by simp
  with minimax_value_bounds [of "board[c := Some MarkO]" 0 False] assms
  show ?thesis by (simp add: rootValue_def)
qed

lemma nulls_after:
  assumes "length board = 9" "board ! c = None" "c < 9"
  shows "int (nulls (board[c := Some m])) \<le> 8"
proof -
  from assms have "elemAt board c = Val None" by (simp add: elemAt_def)
  from nulls_place [OF this, of m] nulls_le_length [of board] assms(1) show ?thesis by simp
qed

lemma rootValue_no_win:
  assumes "length board = 9" "checkWinner board = InProgress" "board ! c = None" "c < 9"
    and "\<not> winsAt board MarkO c"
  shows "rootValue board c \<le> Score 9"
proof -
  let ?b = "board[c := Some MarkO]"
  have len: "length ?b = 9" using assms(1) by simp
  show ?thesis
  proof (cases "checkWinner ?b")
    case (Win m')
    from after_move [OF assms(1,2) Win] assms(5) show ?thesis by simp
  next
    case Draw
    then show ?thesis by (simp add: rootValue_def minimax_value_Win)
  next
    case InProgress
    from InProgress_has_move [OF InProgress len] obtain j where j: "j \<in> set (moves ?b)" ..
    have "int (nulls (?b[j := Some MarkX])) \<le> 8"
      using nulls_moves [OF j, of MarkX] nulls_after [OF assms(1,3,4), of MarkO] by simp
    with minimax_value_bounds [of "?b[j := Some MarkX]" 1 True] len
    have "minimax_value (?b[j := Some MarkX]) 1 True \<le> Score 9" by simp
    with j show ?thesis
      by (auto simp: rootValue_def minimax_value_min [OF InProgress] minimum_le_iff)
  qed
qed

lemma rootValue_unblocked:
  assumes "length board = 9" "checkWinner board = InProgress" "board ! c = None" "c < 9"
    and "\<not> winsAt board MarkO c" "completesLine board MarkX x" "x \<noteq> c" "x < 9"
  shows "rootValue board c \<le> Score (- 9)"
proof -
  let ?b = "board[c := Some MarkO]"
  have len: "length ?b = 9" using assms(1) by simp
  from assms(6) have ex: "board ! x = None" by (simp add: completesLine_def)
  with assms(7) have bx: "?b ! x = None" by simp
  have ip: "checkWinner ?b = InProgress"
  proof (cases "checkWinner ?b")
    case (Win m')
    from after_move [OF assms(1,2) Win] assms(5) show ?thesis by simp
  next
    case Draw
    from Draw_full [OF this] bx len assms(8) show ?thesis by (metis nth_mem)
  next
    case InProgress
    then show ?thesis .
  qed
  from completesLine_mono [OF assms(6) _ assms(3), of "Some MarkO"] assms(7)
  have "completesLine ?b MarkX x" by simp
  with winsAt_iff [OF len ip bx, of MarkX] have "checkWinner (?b[x := Some MarkX]) = Win MarkX"
    by (simp add: winsAt_def)
  then have "minimax_value (?b[x := Some MarkX]) 1 True = Score (- 9)"
    by (simp add: minimax_value_Win)
  moreover from bx assms(8) len have "x \<in> set (moves ?b)" by (simp add: moves_9)
  ultimately have "\<exists>i \<in> set (moves ?b). minimax_value (?b[i := Some MarkX]) 1 True \<le> Score (- 9)"
    by (intro bexI [of _ x]) simp_all
  then show ?thesis
    by (simp add: rootValue_def minimax_value_min [OF ip] minimum_le_iff)
qed

lemma rootValue_blocked:
  assumes "length board = 9" "checkWinner board = InProgress" "board ! c = None" "c < 9"
    and "\<forall>x < 9. x \<noteq> c \<longrightarrow> \<not> completesLine board MarkX x"
  shows "Score (- 8) \<le> rootValue board c"
proof -
  let ?b = "board[c := Some MarkO]"
  have len: "length ?b = 9" using assms(1) by simp
  note n8 = nulls_after [OF assms(1,3,4), of MarkO]
  show ?thesis
  proof (cases "checkWinner ?b")
    case (Win m')
    with after_move [OF assms(1,2) Win] show ?thesis
      by (simp add: rootValue_def minimax_value_Win)
  next
    case Draw
    then show ?thesis by (simp add: rootValue_def minimax_value_Win)
  next
    case InProgress
    have "Score (- 8) \<le> minimax_value (?b[x := Some MarkX]) 1 True" if x: "x \<in> set (moves ?b)" for x
    proof -
      let ?b2 = "?b[x := Some MarkX]"
      from x len have x9: "x < 9" "?b ! x = None" by (simp_all add: moves_9)
      then have xc: "x \<noteq> c" using assms(1,4) by auto
      have len2: "length ?b2 = 9" using len by simp
      have n7: "int (nulls ?b2) \<le> 7" using nulls_moves [OF x, of MarkX] n8 by simp
      show ?thesis
      proof (cases "checkWinner ?b2")
        case (Win m')
        from after_move [OF len InProgress Win] have m': "m' = MarkX" "winsAt ?b MarkX x" by simp_all
        with winsAt_iff [OF len InProgress x9(2), of MarkX] have "completesLine ?b MarkX x" by simp
        from completesLine_antimono [OF this _ _ assms(1,4)] xc
        have "completesLine board MarkX x" by simp
        with assms(5) x9(1) xc show ?thesis by simp
      next
        case Draw
        then show ?thesis by (simp add: minimax_value_Win)
      next
        case ip2: InProgress
        from InProgress_has_move [OF ip2 len2] obtain j where j: "j \<in> set (moves ?b2)" ..
        have "int (nulls (?b2[j := Some MarkO])) \<le> 6"
          using nulls_moves [OF j, of MarkO] n7 by simp
        with minimax_value_bounds [of "?b2[j := Some MarkO]" 2 False] len2
        have "Score (- 8) \<le> minimax_value (?b2[j := Some MarkO]) 2 False" by simp
        with j show ?thesis
          by (auto simp: minimax_value_max [OF ip2] le_maximum_iff)
      qed
    qed
    then show ?thesis
      by (simp add: rootValue_def minimax_value_min [OF InProgress] le_minimum_iff)
  qed
qed

lemma rootValue_lower:
  assumes "length board = 9" "checkWinner board = InProgress" "board ! c = None" "c < 9"
  shows "Score (- 9) \<le> rootValue board c"
proof -
  let ?b = "board[c := Some MarkO]"
  have len: "length ?b = 9" using assms(1) by simp
  note n8 = nulls_after [OF assms(1,3,4), of MarkO]
  show ?thesis
  proof (cases "checkWinner ?b")
    case (Win m')
    with after_move [OF assms(1,2) Win] show ?thesis
      by (simp add: rootValue_def minimax_value_Win)
  next
    case Draw
    then show ?thesis by (simp add: rootValue_def minimax_value_Win)
  next
    case InProgress
    have "Score (- 9) \<le> minimax_value (?b[x := Some MarkX]) 1 True" if x: "x \<in> set (moves ?b)" for x
    proof -
      have "int (nulls (?b[x := Some MarkX])) \<le> 7" using nulls_moves [OF x, of MarkX] n8 by simp
      with minimax_value_bounds [of "?b[x := Some MarkX]" 1 True] len show ?thesis by simp
    qed
    then show ?thesis
      by (simp add: rootValue_def minimax_value_min [OF InProgress] le_minimum_iff)
  qed
qed

lemma chooseMove_search:
  assumes "find (winsAt board MarkO) (emptyCells board) = None"
    "find (winsAt board MarkX) (emptyCells board) = None"
  shows "chooseMove board Hard random =
           firstBest (rootValue board) (emptyCells board) NegInfinity (elemAt (emptyCells board) 0)"
  using assms by (simp add: chooseMove_def)

lemma threats_iff: "x \<in> set (threats board m) \<longleftrightarrow> x < 9 \<and> completesLine board m x"
  by (auto simp: threats_def)

lemma filter_at_most_one:
  assumes "length (filter P xs) \<le> 1" "distinct xs" "x \<in> set xs" "P x" "y \<in> set xs" "P y"
  shows "x = y"
proof -
  from assms(2-6) have "distinct (filter P xs)" "x \<in> set (filter P xs)" "y \<in> set (filter P xs)"
    by simp_all
  with assms(1) show ?thesis
  proof (cases "filter P xs")
    case Nil
    with \<open>x \<in> set (filter P xs)\<close> show ?thesis by simp
  next
    case (Cons a as)
    with assms(1) have "as = []" by simp
    with Cons \<open>x \<in> set (filter P xs)\<close> \<open>y \<in> set (filter P xs)\<close>
    show ?thesis by simp
  qed
qed

lemma only_threat:
  assumes "length (threats board m) \<le> 1" "completesLine board m c" "c < 9"
  shows "\<forall>x < 9. x \<noteq> c \<longrightarrow> \<not> completesLine board m x"
proof (intro allI impI notI)
  fix x assume "x < 9" "x \<noteq> c" "completesLine board m x"
  with filter_at_most_one [of "completesLine board m" "[0 ..< 9]" x c] assms
  show False by (simp add: threats_def)
qed

lemma two_threats_other:
  assumes "2 \<le> length (threats board m)"
  shows "\<exists>x < 9. x \<noteq> c \<and> completesLine board m x"
proof -
  have d: "distinct (threats board m)" by (simp add: threats_def)
  from assms obtain x y rest where t: "threats board m = x # y # rest"
    by (cases "threats board m"; cases "tl (threats board m)") auto
  with d have "x \<noteq> y" by simp
  moreover from t have "x \<in> set (threats board m)" "y \<in> set (threats board m)" by simp_all
  then have "x < 9 \<and> completesLine board m x" "y < 9 \<and> completesLine board m y"
    by (simp_all add: threats_iff)
  ultimately show ?thesis by (cases "x = c") auto
qed

lemma fork_values:
  assumes "length board = 9" "checkWinner board = InProgress"
    and "threats board MarkO = []" "2 \<le> length (threats board MarkX)"
    and "c < 9" "board ! c = None"
  shows "rootValue board c = Score (- 9)"
proof -
  from assms(3,5) have "\<not> completesLine board MarkO c"
    using threats_iff [of c board MarkO] by simp
  with winsAt_iff [OF assms(1,2,6), of MarkO] have nw: "\<not> winsAt board MarkO c" by simp
  from two_threats_other [OF assms(4), of c] obtain x
    where x: "x < 9" "x \<noteq> c" "completesLine board MarkX x" by blast
  from rootValue_unblocked [OF assms(1,2,6,5) nw x(3,2,1)]
  have "rootValue board c \<le> Score (- 9)" .
  with rootValue_lower [OF assms(1,2,6,5)] show ?thesis by simp
qed

lemma chooseMove_hard_characterised:
  assumes "length board = 9" and "checkWinner board = InProgress"
  shows "\<exists>c. chooseMove board Hard random = Val c \<and> c < 9 \<and> board ! c = None
           \<and> (\<forall>c' < 9. board ! c' = None \<longrightarrow> rootValue board c' \<le> rootValue board c)
           \<and> (if threats board MarkO = [] \<and> 2 \<le> length (threats board MarkX)
               then completesLine board MarkX c
                    \<and> (\<forall>c' < c. \<not> completesLine board MarkX c')
                    \<and> (\<forall>c' < 9. board ! c' = None \<longrightarrow> rootValue board c' = Score (- 9))
                    \<and> (firstHighest board c \<longleftrightarrow> (\<forall>c' < c. board ! c' \<noteq> None))
               else firstHighest board c)"
proof -
  let ?b = board
  let ?e = "emptyCells ?b"
  note sr = scan_result [OF assms(1,2)]
  note sn = scan_none [OF assms(1,2)]
  note wi = winsAt_iff [OF assms(1,2)]
  have fh: "c < 9 \<and> ?b ! c = None
      \<and> (\<forall>c' < 9. ?b ! c' = None \<longrightarrow> rootValue ?b c' \<le> rootValue ?b c)"
    if "firstHighest ?b c" for c
    using that by (simp add: firstHighest_def)
  show ?thesis
  proof (cases "find (winsAt ?b MarkO) ?e")
    case (Some c)
    with sr [of MarkO c] have c: "c < 9" "completesLine ?b MarkO c"
      "\<forall>c' < c. \<not> completesLine ?b MarkO c'" by simp_all
    then have e: "?b ! c = None" by (simp add: completesLine_def)
    from c(1,2) have "c \<in> set (threats ?b MarkO)" by (simp add: threats_iff)
    then have ne: "threats ?b MarkO \<noteq> []" by auto
    from c(2) wi [OF e] have v: "rootValue ?b c = Score 10" by (simp add: rootValue_win)
    have "rootValue ?b c' < Score 10" if "c' < c" "?b ! c' = None" for c'
    proof -
      from that c(1,3) wi [OF that(2), of MarkO] have "\<not> winsAt ?b MarkO c'" "c' < 9" by simp_all
      from rootValue_no_win [OF assms(1,2) that(2) this(2,1)] show ?thesis
        by (cases "rootValue ?b c'") auto
    qed
    with c(1) e v rootValue_upper [OF assms(1)] have f: "firstHighest ?b c"
      by (simp add: firstHighest_def)
    from Some have "chooseMove ?b Hard random = Val c" by (simp add: chooseMove_scan_O)
    with f fh [OF f] ne show ?thesis by simp
  next
    case None
    then have noO: "\<forall>c < 9. \<not> completesLine ?b MarkO c" by (simp add: sn)
    then have tO: "threats ?b MarkO = []" by (simp add: threats_def filter_empty_conv)
    show ?thesis
    proof (cases "find (winsAt ?b MarkX) ?e")
      case (Some c)
      with sr [of MarkX c] have c: "c < 9" "completesLine ?b MarkX c"
        "\<forall>c' < c. \<not> completesLine ?b MarkX c'" by simp_all
      then have e: "?b ! c = None" by (simp add: completesLine_def)
      from None Some have r: "chooseMove ?b Hard random = Val c" by (simp add: chooseMove_scan_X)
      show ?thesis
      proof (cases "2 \<le> length (threats ?b MarkX)")
        case True
        have all: "rootValue ?b c' = Score (- 9)" if "c' < 9" "?b ! c' = None" for c'
          using fork_values [OF assms(1,2) tO True that] .
        have "firstHighest ?b c \<longleftrightarrow> (\<forall>c' < c. ?b ! c' \<noteq> None)"
        proof
          assume f: "firstHighest ?b c"
          show "\<forall>c' < c. ?b ! c' \<noteq> None"
          proof (intro allI impI notI)
            fix c' assume c': "c' < c" "?b ! c' = None"
            with f have "rootValue ?b c' < rootValue ?b c" by (simp add: firstHighest_def)
            moreover from c' c(1) all [of c'] all [OF c(1) e]
            have "rootValue ?b c' = rootValue ?b c" by simp
            ultimately show False by simp
          qed
        next
          assume "\<forall>c' < c. ?b ! c' \<noteq> None"
          with c(1) e all show "firstHighest ?b c" by (simp add: firstHighest_def)
        qed
        with r c e all tO True show ?thesis by simp
      next
        case False
        then have one: "length (threats ?b MarkX) \<le> 1" by simp
        from rootValue_blocked [OF assms(1,2) e c(1) only_threat [OF one c(2,1)]]
        have hi: "Score (- 8) \<le> rootValue ?b c" .
        have lt: "rootValue ?b c' < rootValue ?b c" if "c' < 9" "?b ! c' = None" "c' \<noteq> c" for c'
        proof -
          from that(1,2) noO wi [OF that(2), of MarkO] have "\<not> winsAt ?b MarkO c'" by simp
          from rootValue_unblocked [OF assms(1,2) that(2,1) this c(2) _ c(1)] that(3)
          have "rootValue ?b c' \<le> Score (- 9)" by simp
          with hi show ?thesis
            by (cases "rootValue ?b c'"; cases "rootValue ?b c") auto
        qed
        have le: "rootValue ?b c' \<le> rootValue ?b c" if "c' < 9" "?b ! c' = None" for c'
          using that lt [of c'] by (cases "c' = c") (simp_all add: less_imp_le)
        have "rootValue ?b c' < rootValue ?b c" if "c' < c" "?b ! c' = None" for c'
          using that c(1) lt [of c'] by simp
        with le have f: "firstHighest ?b c"
          using c(1) e by (simp add: firstHighest_def)
        with r fh [OF f] False show ?thesis by simp
      qed
    next
      case noX: None
      then have "\<forall>c < 9. \<not> completesLine ?b MarkX c" by (simp add: sn)
      then have "threats ?b MarkX = []" by (simp add: threats_def filter_empty_conv)
      then have few: "\<not> 2 \<le> length (threats ?b MarkX)" by simp
      from InProgress_has_move [OF assms(2,1)] obtain i where "i \<in> set (moves ?b)" ..
      with assms(1) have "i \<in> set ?e" by (simp add: moves_9 emptyCells_iff)
      then have ne: "?e \<noteq> []" by auto
      from firstBest_first_argmax [OF ne sorted_emptyCells, of "rootValue ?b"]
      obtain c where c: "c \<in> set ?e"
        "firstBest (rootValue ?b) ?e NegInfinity (elemAt ?e 0) = Val c"
        "\<forall>x \<in> set ?e. rootValue ?b x \<le> rootValue ?b c"
        "\<forall>x \<in> set ?e. x < c \<longrightarrow> rootValue ?b x < rootValue ?b c"
        by blast
      with assms(1) have f: "firstHighest ?b c"
        by (simp add: firstHighest_def emptyCells_iff)
      from c(2) None noX have "chooseMove ?b Hard random = Val c" by (simp add: chooseMove_search)
      with f fh [OF f] few show ?thesis by simp
    qed
  qed
qed

text \<open>
  Claim C2, as amended. On every non-terminal 9-cell board, \<open>getAIMove\<close> at difficulty
  hard returns an empty cell whose resulting position has the highest minimax value
  (\<open>depth - 10\<close> for a win of \<open>'X'\<close>, \<open>10 - depth\<close> for a win of \<open>'O'\<close>, \<open>0\<close> for a draw,
  \<open>depth\<close> counted from 0 at the root). It is the first such cell in increasing index
  order, except where \<open>'O'\<close> has no cell that completes a line and \<open>'X'\<close> has two or
  more: there every move has the value \<open>-9\<close> and the call returns the lowest cell that
  completes a line for \<open>'X'\<close>, which is the first cell of highest value exactly when no
  empty cell has a lower index.
\<close>

theorem hard_returns_first_highest:
  assumes "board < fresh s" and "length (heap s board) = 9"
    and "checkWinner (heap s board) = InProgress"
  shows "\<exists>c. snd (getAIMove s board Hard random) = Val c \<and> c < 9 \<and> heap s board ! c = None
           \<and> (\<forall>c' < 9. heap s board ! c' = None \<longrightarrow>
                 rootValue (heap s board) c' \<le> rootValue (heap s board) c)
           \<and> (if threats (heap s board) MarkO = [] \<and> 2 \<le> length (threats (heap s board) MarkX)
               then completesLine (heap s board) MarkX c
                    \<and> (\<forall>c' < c. \<not> completesLine (heap s board) MarkX c')
                    \<and> (\<forall>c' < 9. heap s board ! c' = None \<longrightarrow>
                          rootValue (heap s board) c' = Score (- 9))
                    \<and> (firstHighest (heap s board) c \<longleftrightarrow> (\<forall>c' < c. heap s board ! c' \<noteq> None))
               else firstHighest (heap s board) c)"
  using chooseMove_hard_characterised [OF assms(2,3), of random] assms(1)
  by (simp only: snd_getAIMove)


lemma forked_facts:
  "length forked = 9" "checkWinner forked = InProgress"
  "forked ! 0 = None" "forked ! 2 = None"
  "completesLine forked MarkX 2" "completesLine forked MarkX 3"
  "\<not> winsAt forked MarkO 0" "\<not> winsAt forked MarkO 2"
  by (simp_all add: forked_def checkWinner_def lines_def elemAt_def completesLine_def
        onLine_def complete_def winsAt_def)

lemma hard_forked: "chooseMove forked Hard random = Val 2"
  by (simp add: eval_defs forked_def)

text \<open>
  Claim C2 as stated fails where \<open>'X'\<close> threatens twice: on \<open>. . . / . X X / X O O\<close>
  every move of \<open>'O'\<close> has the same value (\<open>'X'\<close> wins at once, \<open>-9\<close>), so the first move
  of highest value is cell 0; the call returns cell 2, the lowest cell at which \<open>'X'\<close>
  would win, from the blocking scan that runs before the search.
\<close>

theorem hard_fork_not_first_highest:
  "checkWinner forked = InProgress
   \<and> snd (getAIMove (storeOf forked) 0 Hard (\<lambda>n. 0)) = Val 2
   \<and> forked ! 0 = None
   \<and> rootValue forked 0 = rootValue forked 2
   \<and> \<not> firstHighest forked 2"
proof -
  note f = forked_facts
  have lo: "Score (- 9) \<le> rootValue forked 0" "Score (- 9) \<le> rootValue forked 2"
    using rootValue_lower [OF f(1,2,3)] rootValue_lower [OF f(1,2,4)] by simp_all
  have hi0: "rootValue forked 0 \<le> Score (- 9)"
    using rootValue_unblocked [OF f(1,2,3) _ f(7) f(5)] by simp
  have hi2: "rootValue forked 2 \<le> Score (- 9)"
    using rootValue_unblocked [OF f(1,2,4) _ f(8) f(6)] by simp
  from lo hi0 hi2 have eq: "rootValue forked 0 = rootValue forked 2" by simp
  have "\<not> firstHighest forked 2"
  proof
    assume "firstHighest forked 2"
    then have "\<forall>c' < 2. forked ! c' = None \<longrightarrow> rootValue forked c' < rootValue forked 2"
      by (simp add: firstHighest_def)
    with f(3) have "rootValue forked 0 < rootValue forked 2" by simp
    with eq show False by simp
  qed
  with eq f(2,3) show ?thesis
    by (simp add: snd_getAIMove storeOf_simps hard_forked)
qed

lemma upt_0_9: "[0 ..< 9] = [0, 1, 2, 3, 4, 5, 6, 7, 8::nat]"
  by (simp add: upt_conv_Cons)

lemma centerX_facts:
  "length centerX = 9" "checkWinner centerX = InProgress" "threats centerX MarkX = []"
  by (simp_all add: centerX_def checkWinner_def lines_def elemAt_def threats_def
        completesLine_def onLine_def complete_def upt_0_9)

theorem hard_returns_first_highest_witness:
  "\<exists>c. snd (getAIMove (storeOf centerX) 0 Hard (\<lambda>n. 0)) = Val c \<and> firstHighest centerX c"
proof -
  have "\<exists>c. snd (getAIMove (storeOf centerX) 0 Hard (\<lambda>n. 0)) = Val c \<and> c < 9
           \<and> heap (storeOf centerX) 0 ! c = None
           \<and> (\<forall>c' < 9. heap (storeOf centerX) 0 ! c' = None \<longrightarrow>
                 rootValue (heap (storeOf centerX) 0) c' \<le> rootValue (heap (storeOf centerX) 0) c)
           \<and> firstHighest (heap (storeOf centerX) 0) c"
    using hard_returns_first_highest [of 0 "storeOf centerX" "\<lambda>n. 0"]
    by (simp add: storeOf_simps centerX_facts)
  then show ?thesis by (auto simp: storeOf_simps)
qed

section \<open>The hard difficulty never loses a position it can hold\<close>

declare holds.simps [simp del] someMove.simps [simp del] everyMove.simps [simp del]

lemma checkWinner9:
  "checkWinner [a0, a1, a2, a3, a4, a5, a6, a7, a8] =
     (case (if a0 \<noteq> None \<and> a0 = a1 \<and> a0 = a2 then a0
            else if a3 \<noteq> None \<and> a3 = a4 \<and> a3 = a5 then a3
            else if a6 \<noteq> None \<and> a6 = a7 \<and> a6 = a8 then a6
            else if a0 \<noteq> None \<and> a0 = a3 \<and> a0 = a6 then a0
            else if a1 \<noteq> None \<and> a1 = a4 \<and> a1 = a7 then a1
            else if a2 \<noteq> None \<and> a2 = a5 \<and> a2 = a8 then a2
            else if a0 \<noteq> None \<and> a0 = a4 \<and> a0 = a8 then a0
            else if a2 \<noteq> None \<and> a2 = a4 \<and> a2 = a6 then a2
            else None) of
        Some m \<Rightarrow> Win m
      | None \<Rightarrow>
          (if a0 \<noteq> None \<and> a1 \<noteq> None \<and> a2 \<noteq> None \<and> a3 \<noteq> None \<and> a4 \<noteq> None
              \<and> a5 \<noteq> None \<and> a6 \<noteq> None \<and> a7 \<noteq> None \<and> a8 \<noteq> None then Draw
           else InProgress))"
proof -
  let ?b = "[a0, a1, a2, a3, a4, a5, a6, a7, a8]"
  have l: "checkLines ?b lines =
      (if complete ?b (0, 1, 2) then ?b ! 0
       else if complete ?b (3, 4, 5) then ?b ! 3
       else if complete ?b (6, 7, 8) then ?b ! 6
       else if complete ?b (0, 3, 6) then ?b ! 0
       else if complete ?b (1, 4, 7) then ?b ! 1
       else if complete ?b (2, 5, 8) then ?b ! 2
       else if complete ?b (0, 4, 8) then ?b ! 0
       else if complete ?b (2, 4, 6) then ?b ! 2
       else None)"
    unfolding lines_def by (simp add: checkLines_step del: checkLines.simps(2))
  have c: "complete ?b (0, 1, 2) = (a0 \<noteq> None \<and> a0 = a1 \<and> a0 = a2)"
    "complete ?b (3, 4, 5) = (a3 \<noteq> None \<and> a3 = a4 \<and> a3 = a5)"
    "complete ?b (6, 7, 8) = (a6 \<noteq> None \<and> a6 = a7 \<and> a6 = a8)"
    "complete ?b (0, 3, 6) = (a0 \<noteq> None \<and> a0 = a3 \<and> a0 = a6)"
    "complete ?b (1, 4, 7) = (a1 \<noteq> None \<and> a1 = a4 \<and> a1 = a7)"
    "complete ?b (2, 5, 8) = (a2 \<noteq> None \<and> a2 = a5 \<and> a2 = a8)"
    "complete ?b (0, 4, 8) = (a0 \<noteq> None \<and> a0 = a4 \<and> a0 = a8)"
    "complete ?b (2, 4, 6) = (a2 \<noteq> None \<and> a2 = a4 \<and> a2 = a6)"
    by (simp_all add: complete_def)
  have n: "?b ! 0 = a0" "?b ! 1 = a1" "?b ! 2 = a2" "?b ! 3 = a3" "?b ! 6 = a6"
    by simp_all
  have a: "list_all (\<lambda>cell. cell \<noteq> None) ?b =
      (a0 \<noteq> None \<and> a1 \<noteq> None \<and> a2 \<noteq> None \<and> a3 \<noteq> None \<and> a4 \<noteq> None
        \<and> a5 \<noteq> None \<and> a6 \<noteq> None \<and> a7 \<noteq> None \<and> a8 \<noteq> None)"
    by simp
  show ?thesis
    unfolding checkWinner_def l c n a by (rule refl)
qed

lemma elemAt9:
  "elemAt [a0, a1, a2, a3, a4, a5, a6, a7, a8] 0 = Val a0"
  "elemAt [a0, a1, a2, a3, a4, a5, a6, a7, a8] (Suc 0) = Val a1"
  "elemAt [a0, a1, a2, a3, a4, a5, a6, a7, a8] 2 = Val a2"
  "elemAt [a0, a1, a2, a3, a4, a5, a6, a7, a8] 3 = Val a3"
  "elemAt [a0, a1, a2, a3, a4, a5, a6, a7, a8] 4 = Val a4"
  "elemAt [a0, a1, a2, a3, a4, a5, a6, a7, a8] 5 = Val a5"
  "elemAt [a0, a1, a2, a3, a4, a5, a6, a7, a8] 6 = Val a6"
  "elemAt [a0, a1, a2, a3, a4, a5, a6, a7, a8] 7 = Val a7"
  "elemAt [a0, a1, a2, a3, a4, a5, a6, a7, a8] 8 = Val a8"
  by (simp_all add: elemAt_def)

lemma update9:
  "[a0, a1, a2, a3, a4, a5, a6, a7, a8][0 := v] = [v, a1, a2, a3, a4, a5, a6, a7, a8]"
  "[a0, a1, a2, a3, a4, a5, a6, a7, a8][Suc 0 := v] = [a0, v, a2, a3, a4, a5, a6, a7, a8]"
  "[a0, a1, a2, a3, a4, a5, a6, a7, a8][2 := v] = [a0, a1, v, a3, a4, a5, a6, a7, a8]"
  "[a0, a1, a2, a3, a4, a5, a6, a7, a8][3 := v] = [a0, a1, a2, v, a4, a5, a6, a7, a8]"
  "[a0, a1, a2, a3, a4, a5, a6, a7, a8][4 := v] = [a0, a1, a2, a3, v, a5, a6, a7, a8]"
  "[a0, a1, a2, a3, a4, a5, a6, a7, a8][5 := v] = [a0, a1, a2, a3, a4, v, a6, a7, a8]"
  "[a0, a1, a2, a3, a4, a5, a6, a7, a8][6 := v] = [a0, a1, a2, a3, a4, a5, v, a7, a8]"
  "[a0, a1, a2, a3, a4, a5, a6, a7, a8][7 := v] = [a0, a1, a2, a3, a4, a5, a6, v, a8]"
  "[a0, a1, a2, a3, a4, a5, a6, a7, a8][8 := v] = [a0, a1, a2, a3, a4, a5, a6, a7, v]"
  by (simp_all add: numeral_eq_Suc)

lemma holds_sound:
  "holds ge board depth isMaximizing v = Yes \<Longrightarrow>
     (if ge then Score v \<le> minimax_value board depth isMaximizing
      else minimax_value board depth isMaximizing \<le> Score v)"
  "someMove ge board depth isMaximizing v cells = Yes \<Longrightarrow>
     \<exists>i \<in> set cells. elemAt board i = Val None \<and>
       (if ge then Score v \<le> minimax_value (board[i := Some (if isMaximizing then MarkO else MarkX)])
                                (depth + 1) (\<not> isMaximizing)
        else minimax_value (board[i := Some (if isMaximizing then MarkO else MarkX)])
               (depth + 1) (\<not> isMaximizing) \<le> Score v)"
  "everyMove ge board depth isMaximizing v cells = Yes \<Longrightarrow>
     \<forall>i \<in> set cells. elemAt board i = Val None \<longrightarrow>
       (if ge then Score v \<le> minimax_value (board[i := Some (if isMaximizing then MarkO else MarkX)])
                                (depth + 1) (\<not> isMaximizing)
        else minimax_value (board[i := Some (if isMaximizing then MarkO else MarkX)])
               (depth + 1) (\<not> isMaximizing) \<le> Score v)"
proof (induction ge board depth isMaximizing v and ge board depth isMaximizing v cells
         and ge board depth isMaximizing v cells rule: holds_someMove_everyMove.induct)
  case (1 ge board depth isMaximizing v)
  let ?cells = "[0, 1, 2, 3, 4, 5, 6, 7, 8] :: nat list"
  have cs: "?cells = [0 ..< 9]" by (simp only: upt_0_9)
  have mv: "i \<in> set (moves board)" if "i \<in> set ?cells" "elemAt board i = Val None" for i
    using that unfolding cs by (simp add: moves_iff elemAt_Val_iff)
  have mv': "i \<in> set ?cells \<and> elemAt board i = Val None" if "i \<in> set (moves board)" for i
    using that unfolding cs by (simp add: moves_iff elemAt_Val_iff)
  show ?case
  proof (cases "checkWinner board")
    case (Win m)
    with 1(3) show ?thesis
      by (cases m; cases ge) (simp_all add: holds.simps minimax_value_Win split: if_splits)
  next
    case Draw
    with 1(3) show ?thesis
      by (cases ge) (simp_all add: holds.simps minimax_value_Win split: if_splits)
  next
    case InProgress
    show ?thesis
    proof (cases "isMaximizing = ge")
      case True
      with 1(3) InProgress have "someMove ge board depth isMaximizing v ?cells = Yes"
        by (simp add: holds.simps [of ge board])
      from 1(1) [OF InProgress True this] obtain i where i: "i \<in> set ?cells"
        "elemAt board i = Val None"
        "if ge then Score v \<le> minimax_value (board[i := Some (if isMaximizing then MarkO else MarkX)])
                                (depth + 1) (\<not> isMaximizing)
         else minimax_value (board[i := Some (if isMaximizing then MarkO else MarkX)])
               (depth + 1) (\<not> isMaximizing) \<le> Score v"
        by blast
      from mv [OF i(1,2)] have im: "i \<in> set (moves board)" .
      show ?thesis
      proof (cases ge)
        case ge: True
        with True i(3) have "Score v \<le> minimax_value (board[i := Some MarkO]) (depth + 1) False"
          by simp
        with im have "\<exists>x \<in> set (moves board).
            Score v \<le> minimax_value (board[x := Some MarkO]) (depth + 1) False" by blast
        with ge True show ?thesis
          by (simp add: minimax_value_max [OF InProgress] le_maximum_iff)
      next
        case ge: False
        with True i(3) have "minimax_value (board[i := Some MarkX]) (depth + 1) True \<le> Score v"
          by simp
        with im have "\<exists>x \<in> set (moves board).
            minimax_value (board[x := Some MarkX]) (depth + 1) True \<le> Score v" by blast
        with ge True show ?thesis
          by (simp add: minimax_value_min [OF InProgress] minimum_le_iff)
      qed
    next
      case False
      with 1(3) InProgress have "everyMove ge board depth isMaximizing v ?cells = Yes"
        by (simp add: holds.simps [of ge board])
      from 1(2) [OF InProgress False this] mv'
      have a: "\<forall>i \<in> set (moves board).
        (if ge then Score v \<le> minimax_value (board[i := Some (if isMaximizing then MarkO else MarkX)])
                                (depth + 1) (\<not> isMaximizing)
         else minimax_value (board[i := Some (if isMaximizing then MarkO else MarkX)])
               (depth + 1) (\<not> isMaximizing) \<le> Score v)"
        by blast
      show ?thesis
      proof (cases ge)
        case ge: True
        with False a have "\<forall>i \<in> set (moves board).
            Score v \<le> minimax_value (board[i := Some MarkX]) (depth + 1) True" by simp
        with ge False show ?thesis
          by (simp add: minimax_value_min [OF InProgress] le_minimum_iff)
      next
        case ge: False
        with False a have "\<forall>i \<in> set (moves board).
            minimax_value (board[i := Some MarkO]) (depth + 1) False \<le> Score v" by simp
        with ge False show ?thesis
          by (simp add: minimax_value_max [OF InProgress] maximum_le_iff)
      qed
    qed
  qed
next
  case (2 ge board depth isMaximizing v)
  then show ?case by (simp add: someMove.simps)
next
  case (3 ge board depth isMaximizing v i cells)
  let ?h = "holds ge (board[i := Some (if isMaximizing then MarkO else MarkX)])
              (depth + 1) (\<not> isMaximizing) v"
  show ?case
  proof (cases "elemAt board i = Val None")
    case False
    with 3(4) have "someMove ge board depth isMaximizing v cells = Yes"
      by (simp add: someMove.simps)
    from 3(3) [OF False this] show ?thesis by auto
  next
    case True
    show ?thesis
    proof (cases ?h)
      case Yes
      from 3(1) [OF True Yes] True show ?thesis by auto
    next
      case No
      with True 3(4) have "someMove ge board depth isMaximizing v cells = Yes"
        by (simp add: someMove.simps)
      from 3(2) [OF True No this] show ?thesis by auto
    qed
  qed
next
  case (4 ge board depth isMaximizing v)
  then show ?case by simp
next
  case (5 ge board depth isMaximizing v i cells)
  let ?h = "holds ge (board[i := Some (if isMaximizing then MarkO else MarkX)])
              (depth + 1) (\<not> isMaximizing) v"
  show ?case
  proof (cases "elemAt board i = Val None")
    case False
    with 5(4) have "everyMove ge board depth isMaximizing v cells = Yes"
      by (simp add: everyMove.simps)
    from 5(3) [OF False this] False show ?thesis by auto
  next
    case True
    show ?thesis
    proof (cases ?h)
      case Yes
      with True 5(4) have "everyMove ge board depth isMaximizing v cells = Yes"
        by (simp add: everyMove.simps)
      from 5(2) [OF True Yes this] 5(1) [OF True Yes] show ?thesis by auto
    next
      case No
      with True 5(4) show ?thesis by (simp add: everyMove.simps)
    qed
  qed
qed

lemma sign_shift:
  assumes "length board = 9" "0 \<le> d" "d + int (nulls board) < 10"
    and "0 \<le> d'" "d' + int (nulls board) < 10"
  shows "(Score 0 \<le> minimax_value board d m) = (Score 0 \<le> minimax_value board d' m)"
  using assms
proof (induction board d m arbitrary: d' rule: minimax_value.induct)
  case (1 board depth isMax)
  show ?case
  proof (cases "checkWinner board")
    case (Win m)
    with 1(4-7) show ?thesis by (cases m) (simp_all add: minimax_value_Win)
  next
    case Draw
    then show ?thesis by (simp add: minimax_value_Win)
  next
    case InProgress
    have sub: "length (board[i := Some m]) = 9 \<and> 0 \<le> depth + 1
               \<and> depth + 1 + int (nulls (board[i := Some m])) < 10
               \<and> 0 \<le> d' + 1 \<and> d' + 1 + int (nulls (board[i := Some m])) < 10"
      if "i \<in> set (moves board)" for i m
      using nulls_moves [OF that, of m] 1(3-7) by simp
    show ?thesis
    proof (cases isMax)
      case True
      have "(Score 0 \<le> minimax_value (board[i := Some MarkO]) (depth + 1) False)
          = (Score 0 \<le> minimax_value (board[i := Some MarkO]) (d' + 1) False)"
        if "i \<in> set (moves board)" for i
        using 1(1) [OF InProgress True that, of "d' + 1"] sub [OF that, of MarkO] by blast
      with True show ?thesis
        by (simp add: minimax_value_max [OF InProgress] le_maximum_iff)
    next
      case False
      have "(Score 0 \<le> minimax_value (board[i := Some MarkX]) (depth + 1) True)
          = (Score 0 \<le> minimax_value (board[i := Some MarkX]) (d' + 1) True)"
        if "i \<in> set (moves board)" for i
        using 1(2) [OF InProgress False that, of "d' + 1"] sub [OF that, of MarkX] by blast
      with False show ?thesis
        by (simp add: minimax_value_min [OF InProgress] le_minimum_iff)
    qed
  qed
qed

lemma holdable_not_lost:
  assumes "holdable g"
  shows "gameWinner g \<noteq> Win MarkX"
proof
  assume "gameWinner g = Win MarkX"
  with assms have "checkWinner (gameBoard g) = Win MarkX" "canHold (gameBoard g)"
    by (simp_all add: holdable_def)
  then show False by (simp add: canHold_def minimax_value_Win)
qed

lemma press_keeps_holdable:
  assumes "holdable g" "index < 9"
  shows "\<exists>g'. handleCellPress random g index = Some g' \<and> holdable g'"
proof (cases "(\<exists>m. elemAt (gameBoard g) index = Val (Some m)) \<or> gameWinner g \<noteq> InProgress")
  case True
  with assms(1) show ?thesis by (simp add: handleCellPress_def)
next
  case False
  let ?b = "gameBoard g"
  let ?n = "?b[index := Some MarkX]"
  from assms(1) have len: "length ?b = 9" and ip: "checkWinner ?b = InProgress"
    and hard: "gameDifficulty g = Hard" and hold: "canHold ?b"
    using False by (simp_all add: holdable_def)
  from False len assms(2) have e: "?b ! index = None"
    by (cases "?b ! index") (simp_all add: elemAt_def)
  with len assms(2) have im: "index \<in> set (moves ?b)" by (simp add: moves_9)
  have lenn: "length ?n = 9" using len by simp
  from hold im have h1: "Score 0 \<le> minimax_value ?n 1 True"
    by (simp add: canHold_def minimax_value_min [OF ip] le_minimum_iff)
  note n8 = nulls_after [OF len e assms(2), of MarkX]
  show ?thesis
  proof (cases "checkWinner ?n")
    case (Win m)
    from after_move [OF len ip Win] have "m = MarkX" by simp
    with Win h1 show ?thesis by (simp add: minimax_value_Win)
  next
    case Draw
    then have "canHold ?n" by (simp add: canHold_def minimax_value_Win)
    with False Draw lenn hard show ?thesis
      by (simp add: handleCellPress_def holdable_def)
  next
    case InProgress
    from h1 obtain i where i: "i \<in> set (moves ?n)"
      "Score 0 \<le> minimax_value (?n[i := Some MarkO]) 2 False"
      by (auto simp: minimax_value_max [OF InProgress] le_maximum_iff)
    from i(1) lenn have i9: "i < 9" "?n ! i = None" by (simp_all add: moves_9)
    have "int (nulls (?n[i := Some MarkO])) \<le> 7"
      using nulls_moves [OF i(1), of MarkO] n8 by simp
    with sign_shift [of "?n[i := Some MarkO]" 2 0 False] lenn i(2)
    have ri: "Score 0 \<le> rootValue ?n i" by (simp add: rootValue_def)
    from chooseMove_hard_characterised [OF lenn InProgress, of random] obtain c
      where c: "chooseMove ?n Hard random = Val c" "c < 9" "?n ! c = None"
        "\<forall>c' < 9. ?n ! c' = None \<longrightarrow> rootValue ?n c' \<le> rootValue ?n c"
      by blast
    from c(4) i9 ri have "Score 0 \<le> rootValue ?n c" by (metis order_trans)
    then have "canHold (?n[c := Some MarkO])" by (simp add: canHold_def rootValue_def)
    moreover have "snd (getAIMove (storeOf ?n) 0 (gameDifficulty g) random) = Val c"
      using c(1) hard by (simp add: snd_getAIMove storeOf_simps)
    ultimately show ?thesis
      using False InProgress lenn hard
      by (simp add: handleCellPress_def holdable_def Let_def)
  qed
qed

lemma plays_holdable:
  assumes "plays g0 g" "holdable g0"
  shows "holdable g"
  using assms
proof (induction rule: plays.induct)
  case start
  then show ?case .
next
  case (press g1 index random g2)
  then have h: "holdable g1" by simp
  then have "index < 9" using press(2) by (simp add: holdable_def)
  from press_keeps_holdable [OF h this, of random] press(3) show ?case by simp
qed

lemmas holds_eval = holds.simps someMove.simps everyMove.simps checkWinner9 elemAt9 update9
  if_True if_False simp_thms outcome.case mark.case verdict.case option.case
  option.distinct option.inject mark.distinct jsval.inject jsval.distinct outcome.distinct
  arith_simps rel_simps One_nat_def not_False_eq_True not_True_eq_False
  add_0 add_0_right one_add_one numeral_plus_one one_plus_numeral diff_numeral_special
  diff_0 diff_0_right

lemma opening_0: "holds True [Some MarkX, None, None, None, None, None, None, None, None] 1 True 0 = Yes"
  by (simp only: holds_eval cong: if_weak_cong outcome.case_cong_weak verdict.case_cong_weak
        option.case_cong_weak mark.case_cong_weak)

lemma opening_1: "holds True [None, Some MarkX, None, None, None, None, None, None, None] 1 True 0 = Yes"
  by (simp only: holds_eval cong: if_weak_cong outcome.case_cong_weak verdict.case_cong_weak
        option.case_cong_weak mark.case_cong_weak)

lemma opening_2: "holds True [None, None, Some MarkX, None, None, None, None, None, None] 1 True 0 = Yes"
  by (simp only: holds_eval cong: if_weak_cong outcome.case_cong_weak verdict.case_cong_weak
        option.case_cong_weak mark.case_cong_weak)

lemma opening_3: "holds True [None, None, None, Some MarkX, None, None, None, None, None] 1 True 0 = Yes"
  by (simp only: holds_eval cong: if_weak_cong outcome.case_cong_weak verdict.case_cong_weak
        option.case_cong_weak mark.case_cong_weak)

lemma opening_4: "holds True [None, None, None, None, Some MarkX, None, None, None, None] 1 True 0 = Yes"
  by (simp only: holds_eval cong: if_weak_cong outcome.case_cong_weak verdict.case_cong_weak
        option.case_cong_weak mark.case_cong_weak)

lemma opening_5: "holds True [None, None, None, None, None, Some MarkX, None, None, None] 1 True 0 = Yes"
  by (simp only: holds_eval cong: if_weak_cong outcome.case_cong_weak verdict.case_cong_weak
        option.case_cong_weak mark.case_cong_weak)

lemma opening_6: "holds True [None, None, None, None, None, None, Some MarkX, None, None] 1 True 0 = Yes"
  by (simp only: holds_eval cong: if_weak_cong outcome.case_cong_weak verdict.case_cong_weak
        option.case_cong_weak mark.case_cong_weak)

lemma opening_7: "holds True [None, None, None, None, None, None, None, Some MarkX, None] 1 True 0 = Yes"
  by (simp only: holds_eval cong: if_weak_cong outcome.case_cong_weak verdict.case_cong_weak
        option.case_cong_weak mark.case_cong_weak)

lemma opening_8: "holds True [None, None, None, None, None, None, None, None, Some MarkX] 1 True 0 = Yes"
  by (simp only: holds_eval cong: if_weak_cong outcome.case_cong_weak verdict.case_cong_weak
        option.case_cong_weak mark.case_cong_weak)

lemma b1_at_0: "holds True [Some MarkO, None, None, None, Some MarkX, None, None, None, None] 0 False 0 = Yes"
  by (simp only: holds_eval cong: if_weak_cong outcome.case_cong_weak verdict.case_cong_weak
        option.case_cong_weak mark.case_cong_weak)

lemma b1_at_1: "holds False [None, Some MarkO, None, None, Some MarkX, None, None, None, None] 0 False 0 = Yes"
  by (simp only: holds_eval cong: if_weak_cong outcome.case_cong_weak verdict.case_cong_weak
        option.case_cong_weak mark.case_cong_weak)

lemma b1_at_2: "holds False [None, None, Some MarkO, None, Some MarkX, None, None, None, None] 0 False 0 = Yes"
  by (simp only: holds_eval cong: if_weak_cong outcome.case_cong_weak verdict.case_cong_weak
        option.case_cong_weak mark.case_cong_weak)

lemma b1_at_3: "holds False [None, None, None, Some MarkO, Some MarkX, None, None, None, None] 0 False 0 = Yes"
  by (simp only: holds_eval cong: if_weak_cong outcome.case_cong_weak verdict.case_cong_weak
        option.case_cong_weak mark.case_cong_weak)

lemma b1_at_5: "holds False [None, None, None, None, Some MarkX, Some MarkO, None, None, None] 0 False 0 = Yes"
  by (simp only: holds_eval cong: if_weak_cong outcome.case_cong_weak verdict.case_cong_weak
        option.case_cong_weak mark.case_cong_weak)

lemma b1_at_6: "holds False [None, None, None, None, Some MarkX, None, Some MarkO, None, None] 0 False 0 = Yes"
  by (simp only: holds_eval cong: if_weak_cong outcome.case_cong_weak verdict.case_cong_weak
        option.case_cong_weak mark.case_cong_weak)

lemma b1_at_7: "holds False [None, None, None, None, Some MarkX, None, None, Some MarkO, None] 0 False 0 = Yes"
  by (simp only: holds_eval cong: if_weak_cong outcome.case_cong_weak verdict.case_cong_weak
        option.case_cong_weak mark.case_cong_weak)

lemma b1_at_8: "holds False [None, None, None, None, Some MarkX, None, None, None, Some MarkO] 0 False 0 = Yes"
  by (simp only: holds_eval cong: if_weak_cong outcome.case_cong_weak verdict.case_cong_weak
        option.case_cong_weak mark.case_cong_weak)

lemma b2_at_1: "holds True [Some MarkO, Some MarkO, None, None, Some MarkX, None, None, None, None] 0 False 0 = Yes"
  by (simp only: holds_eval cong: if_weak_cong outcome.case_cong_weak verdict.case_cong_weak
        option.case_cong_weak mark.case_cong_weak)

lemma b2_at_2: "holds False [Some MarkO, None, Some MarkO, None, Some MarkX, None, None, None, None] 0 False 0 = Yes"
  by (simp only: holds_eval cong: if_weak_cong outcome.case_cong_weak verdict.case_cong_weak
        option.case_cong_weak mark.case_cong_weak)

lemma b2_at_3: "holds False [Some MarkO, None, None, Some MarkO, Some MarkX, None, None, None, None] 0 False 0 = Yes"
  by (simp only: holds_eval cong: if_weak_cong outcome.case_cong_weak verdict.case_cong_weak
        option.case_cong_weak mark.case_cong_weak)

lemma b2_at_5: "holds False [Some MarkO, None, None, None, Some MarkX, Some MarkO, None, None, None] 0 False 0 = Yes"
  by (simp only: holds_eval cong: if_weak_cong outcome.case_cong_weak verdict.case_cong_weak
        option.case_cong_weak mark.case_cong_weak)

lemma b2_at_6: "holds False [Some MarkO, None, None, None, Some MarkX, None, Some MarkO, None, None] 0 False 0 = Yes"
  by (simp only: holds_eval cong: if_weak_cong outcome.case_cong_weak verdict.case_cong_weak
        option.case_cong_weak mark.case_cong_weak)

lemma b2_at_7: "holds False [Some MarkO, None, None, None, Some MarkX, None, None, Some MarkO, None] 0 False 0 = Yes"
  by (simp only: holds_eval cong: if_weak_cong outcome.case_cong_weak verdict.case_cong_weak
        option.case_cong_weak mark.case_cong_weak)

lemma b2_at_8: "holds False [Some MarkO, None, None, None, Some MarkX, None, None, None, Some MarkO] 0 False 0 = Yes"
  by (simp only: holds_eval cong: if_weak_cong outcome.case_cong_weak verdict.case_cong_weak
        option.case_cong_weak mark.case_cong_weak)

lemma b4_at_6: "holds True [Some MarkO, Some MarkX, None, None, Some MarkX, None, Some MarkO, Some MarkO, None] 0 False 8 = Yes"
  by (simp only: holds_eval cong: if_weak_cong outcome.case_cong_weak verdict.case_cong_weak
        option.case_cong_weak mark.case_cong_weak)

lemma b4_at_2: "holds False [Some MarkO, Some MarkX, Some MarkO, None, Some MarkX, None, None, Some MarkO, None] 0 False 0 = Yes"
  by (simp only: holds_eval cong: if_weak_cong outcome.case_cong_weak verdict.case_cong_weak
        option.case_cong_weak mark.case_cong_weak)

lemma b4_at_3: "holds False [Some MarkO, Some MarkX, None, Some MarkO, Some MarkX, None, None, Some MarkO, None] 0 False 0 = Yes"
  by (simp only: holds_eval cong: if_weak_cong outcome.case_cong_weak verdict.case_cong_weak
        option.case_cong_weak mark.case_cong_weak)

lemma b4_at_5: "holds False [Some MarkO, Some MarkX, None, None, Some MarkX, Some MarkO, None, Some MarkO, None] 0 False 0 = Yes"
  by (simp only: holds_eval cong: if_weak_cong outcome.case_cong_weak verdict.case_cong_weak
        option.case_cong_weak mark.case_cong_weak)

lemma b4_at_8: "holds False [Some MarkO, Some MarkX, None, None, Some MarkX, None, None, Some MarkO, Some MarkO] 0 False 0 = Yes"
  by (simp only: holds_eval cong: if_weak_cong outcome.case_cong_weak verdict.case_cong_weak
        option.case_cong_weak mark.case_cong_weak)

lemma b6_at_3: "holds True [Some MarkO, Some MarkX, Some MarkO, Some MarkO, Some MarkX, None, Some MarkX, Some MarkO, None] 0 False 0 = Yes"
  by (simp only: holds_eval cong: if_weak_cong outcome.case_cong_weak verdict.case_cong_weak
        option.case_cong_weak mark.case_cong_weak)

lemma b6_at_5: "holds False [Some MarkO, Some MarkX, Some MarkO, None, Some MarkX, Some MarkO, Some MarkX, Some MarkO, None] 0 False 0 = Yes"
  by (simp only: holds_eval cong: if_weak_cong outcome.case_cong_weak verdict.case_cong_weak
        option.case_cong_weak mark.case_cong_weak)

lemma b6_at_8: "holds False [Some MarkO, Some MarkX, Some MarkO, None, Some MarkX, None, Some MarkX, Some MarkO, Some MarkO] 0 False 0 = Yes"
  by (simp only: holds_eval cong: if_weak_cong outcome.case_cong_weak verdict.case_cong_weak
        option.case_cong_weak mark.case_cong_weak)

lemma selfPlay_done: "checkWinner board \<noteq> InProgress \<Longrightarrow> selfPlay fuel mover board = Some board"
  by (cases fuel) simp_all

lemma selfPlay_move:
  "selfPlay (Suc fuel) mover board =
     (if checkWinner board \<noteq> InProgress then Some board
      else
        (case chooseMove board Hard (\<lambda>n. 0) of
           Val cell \<Rightarrow> selfPlay fuel (other mover) (board[cell := Some mover])
         | Undefined \<Rightarrow> None))"
  by (simp add: snd_getAIMove storeOf_simps)

lemma firstHighest_unique:
  assumes "firstHighest board c" "firstHighest board c'"
  shows "c = c'"
proof (rule ccontr)
  assume "c \<noteq> c'"
  then consider "c < c'" | "c' < c" by linarith
  then show False
  proof cases
    case 1
    with assms have "rootValue board c < rootValue board c'" "rootValue board c' \<le> rootValue board c"
      by (simp_all add: firstHighest_def)
    then show False by simp
  next
    case 2
    with assms have "rootValue board c' < rootValue board c" "rootValue board c \<le> rootValue board c'"
      by (simp_all add: firstHighest_def)
    then show False by simp
  qed
qed

lemma firstHighest_bounds:
  assumes "length board = 9" "k \<in> set (emptyCells board)" "Score v \<le> rootValue board k"
    and "\<forall>c \<in> set (emptyCells board). c \<noteq> k \<longrightarrow> rootValue board c \<le> Score u"
    and "u \<le> v" and "\<forall>c \<in> set (emptyCells board). c < k \<longrightarrow> u < v"
  shows "firstHighest board k"
proof -
  from assms(1,2) have k: "k < 9" "board ! k = None" by (simp_all add: emptyCells_iff)
  have le: "rootValue board c \<le> rootValue board k" if "c < 9" "board ! c = None" for c
  proof (cases "c = k")
    case True
    then show ?thesis by simp
  next
    case False
    from that assms(1) have "c \<in> set (emptyCells board)" by (simp add: emptyCells_iff)
    with assms(4) False have "rootValue board c \<le> Score u" by simp
    also have "Score u \<le> Score v" using assms(5) by simp
    finally show ?thesis using assms(3) by simp
  qed
  have lt: "rootValue board c < rootValue board k" if "c < k" "board ! c = None" for c
  proof -
    from that k(1) assms(1) have m: "c \<in> set (emptyCells board)" by (simp add: emptyCells_iff)
    from that(1) k(1) have "c \<noteq> k" by simp
    with assms(4) m have "rootValue board c \<le> Score u" by blast
    moreover from assms(6) m that(1) have "u < v" by blast
    ultimately have "rootValue board c < Score v"
      by (cases "rootValue board c") simp_all
    with assms(3) show ?thesis by simp
  qed
  from k le lt show ?thesis by (simp add: firstHighest_def)
qed

lemma hard_search_choice:
  assumes "length board = 9" "checkWinner board = InProgress"
    and "threats board MarkX = []" "firstHighest board k"
  shows "chooseMove board Hard random = Val k"
proof -
  from chooseMove_hard_characterised [OF assms(1,2), of random] assms(3)
  obtain c where "chooseMove board Hard random = Val c" "firstHighest board c"
    by auto
  with firstHighest_unique [OF assms(4), of c] show ?thesis by simp
qed

lemmas board_eval = checkWinner9 elemAt9 update9 emptyCells_def threats_def completesLine_def
  lines_def onLine_def complete_def upt_0_9

lemma canHold_new: "canHold (replicate 9 None)"
proof -
  let ?b = "replicate 9 None :: player list"
  have b: "?b = [None, None, None, None, None, None, None, None, None]"
    by (simp add: numeral_eq_Suc)
  have ip: "checkWinner ?b = InProgress" unfolding b by (simp add: checkWinner9)
  have mv: "moves ?b = [0, 1, 2, 3, 4, 5, 6, 7, 8]"
    unfolding b by (simp add: moves_def upt_0_9 elemAt9)
  note s = holds_sound(1) [OF opening_0] holds_sound(1) [OF opening_1]
    holds_sound(1) [OF opening_2] holds_sound(1) [OF opening_3] holds_sound(1) [OF opening_4]
    holds_sound(1) [OF opening_5] holds_sound(1) [OF opening_6] holds_sound(1) [OF opening_7]
    holds_sound(1) [OF opening_8]
  show ?thesis
    unfolding canHold_def minimax_value_min [OF ip] le_minimum_iff mv
    using s unfolding b by (simp add: update9)
qed

lemma b1_choice: "chooseMove [None, None, None, None, Some MarkX, None, None, None, None] Hard random = Val 0"
proof (rule hard_search_choice)
  let ?b = "[None, None, None, None, Some MarkX, None, None, None, None]"
  show "length ?b = 9" by simp
  show "checkWinner ?b = InProgress" by (simp add: checkWinner9)
  show "threats ?b MarkX = []" by (simp add: board_eval)
  have e: "emptyCells ?b = [0, 1, 2, 3, 5, 6, 7, 8]" by (simp add: emptyCells_def upt_conv_Cons)
  note s = holds_sound(1) [OF b1_at_0] holds_sound(1) [OF b1_at_1] holds_sound(1) [OF b1_at_2] holds_sound(1) [OF b1_at_3] holds_sound(1) [OF b1_at_5] holds_sound(1) [OF b1_at_6] holds_sound(1) [OF b1_at_7] holds_sound(1) [OF b1_at_8]
  show "firstHighest ?b 0"
  proof (rule firstHighest_bounds [where v = 0 and u = 0])
    show "length ?b = 9" by simp
    show "0 \<in> set (emptyCells ?b)" unfolding e by simp
    show "Score 0 \<le> rootValue ?b 0" using s by (simp add: rootValue_def update9)
    show "\<forall>c \<in> set (emptyCells ?b). c \<noteq> 0 \<longrightarrow> rootValue ?b c \<le> Score 0"
      unfolding e using s by (simp add: rootValue_def update9)
    show "(0::int) \<le> 0" by simp
    show "\<forall>c \<in> set (emptyCells ?b). c < 0 \<longrightarrow> (0::int) < 0" unfolding e by simp
  qed
qed

lemma b2_choice: "chooseMove [Some MarkO, None, None, None, Some MarkX, None, None, None, None] Hard random = Val 1"
proof (rule hard_search_choice)
  let ?b = "[Some MarkO, None, None, None, Some MarkX, None, None, None, None]"
  show "length ?b = 9" by simp
  show "checkWinner ?b = InProgress" by (simp add: checkWinner9)
  show "threats ?b MarkX = []" by (simp add: board_eval)
  have e: "emptyCells ?b = [1, 2, 3, 5, 6, 7, 8]" by (simp add: emptyCells_def upt_conv_Cons)
  note s = holds_sound(1) [OF b2_at_1] holds_sound(1) [OF b2_at_2] holds_sound(1) [OF b2_at_3] holds_sound(1) [OF b2_at_5] holds_sound(1) [OF b2_at_6] holds_sound(1) [OF b2_at_7] holds_sound(1) [OF b2_at_8]
  show "firstHighest ?b 1"
  proof (rule firstHighest_bounds [where v = 0 and u = 0])
    show "length ?b = 9" by simp
    show "1 \<in> set (emptyCells ?b)" unfolding e by simp
    show "Score 0 \<le> rootValue ?b 1" using s by (simp add: rootValue_def update9)
    show "\<forall>c \<in> set (emptyCells ?b). c \<noteq> 1 \<longrightarrow> rootValue ?b c \<le> Score 0"
      unfolding e using s by (simp add: rootValue_def update9)
    show "(0::int) \<le> 0" by simp
    show "\<forall>c \<in> set (emptyCells ?b). c < 1 \<longrightarrow> (0::int) < 0" unfolding e by simp
  qed
qed

lemma b3_choice: "chooseMove [Some MarkO, Some MarkX, None, None, Some MarkX, None, None, None, None] Hard random = Val 7"
  by (simp add: eval_defs)

lemma b4_choice: "chooseMove [Some MarkO, Some MarkX, None, None, Some MarkX, None, None, Some MarkO, None] Hard random = Val 6"
proof (rule hard_search_choice)
  let ?b = "[Some MarkO, Some MarkX, None, None, Some MarkX, None, None, Some MarkO, None]"
  show "length ?b = 9" by simp
  show "checkWinner ?b = InProgress" by (simp add: checkWinner9)
  show "threats ?b MarkX = []" by (simp add: board_eval)
  have e: "emptyCells ?b = [2, 3, 5, 6, 8]" by (simp add: emptyCells_def upt_conv_Cons)
  note s = holds_sound(1) [OF b4_at_2] holds_sound(1) [OF b4_at_3] holds_sound(1) [OF b4_at_5] holds_sound(1) [OF b4_at_6] holds_sound(1) [OF b4_at_8]
  show "firstHighest ?b 6"
  proof (rule firstHighest_bounds [where v = 8 and u = 0])
    show "length ?b = 9" by simp
    show "6 \<in> set (emptyCells ?b)" unfolding e by simp
    show "Score 8 \<le> rootValue ?b 6" using s by (simp add: rootValue_def update9)
    show "\<forall>c \<in> set (emptyCells ?b). c \<noteq> 6 \<longrightarrow> rootValue ?b c \<le> Score 0"
      unfolding e using s by (simp add: rootValue_def update9)
    show "(0::int) \<le> 8" by simp
    show "\<forall>c \<in> set (emptyCells ?b). c < 6 \<longrightarrow> (0::int) < 8" unfolding e by simp
  qed
qed

lemma b5_choice: "chooseMove [Some MarkO, Some MarkX, None, None, Some MarkX, None, Some MarkX, Some MarkO, None] Hard random = Val 2"
  by (simp add: eval_defs)

lemma b6_choice: "chooseMove [Some MarkO, Some MarkX, Some MarkO, None, Some MarkX, None, Some MarkX, Some MarkO, None] Hard random = Val 3"
proof (rule hard_search_choice)
  let ?b = "[Some MarkO, Some MarkX, Some MarkO, None, Some MarkX, None, Some MarkX, Some MarkO, None]"
  show "length ?b = 9" by simp
  show "checkWinner ?b = InProgress" by (simp add: checkWinner9)
  show "threats ?b MarkX = []" by (simp add: board_eval)
  have e: "emptyCells ?b = [3, 5, 8]" by (simp add: emptyCells_def upt_conv_Cons)
  note s = holds_sound(1) [OF b6_at_3] holds_sound(1) [OF b6_at_5] holds_sound(1) [OF b6_at_8]
  show "firstHighest ?b 3"
  proof (rule firstHighest_bounds [where v = 0 and u = 0])
    show "length ?b = 9" by simp
    show "3 \<in> set (emptyCells ?b)" unfolding e by simp
    show "Score 0 \<le> rootValue ?b 3" using s by (simp add: rootValue_def update9)
    show "\<forall>c \<in> set (emptyCells ?b). c \<noteq> 3 \<longrightarrow> rootValue ?b c \<le> Score 0"
      unfolding e using s by (simp add: rootValue_def update9)
    show "(0::int) \<le> 0" by simp
    show "\<forall>c \<in> set (emptyCells ?b). c < 3 \<longrightarrow> (0::int) < 0" unfolding e by simp
  qed
qed

lemma b7_choice: "chooseMove [Some MarkO, Some MarkX, Some MarkO, Some MarkX, Some MarkX, None, Some MarkX, Some MarkO, None] Hard random = Val 5"
  by (simp add: eval_defs)

lemma b8_choice: "chooseMove [Some MarkO, Some MarkX, Some MarkO, Some MarkX, Some MarkX, Some MarkO, Some MarkX, Some MarkO, None] Hard random = Val 8"
  by (simp add: eval_defs)

lemma selfPlay_game: "selfPlay (8 + n) MarkO centerX = Some drawnBoard"
proof -
  have f: "8 + n = Suc (Suc (Suc (Suc (Suc (Suc (Suc (Suc n)))))))" by simp
  have d: "checkWinner drawnBoard = Draw" by (simp add: drawnBoard_def checkWinner9)
  show ?thesis
    unfolding f centerX_def
    by (simp add: selfPlay_move selfPlay_done checkWinner9 update9 other_def drawnBoard_def
        b1_choice b2_choice b3_choice b4_choice b5_choice b6_choice b7_choice b8_choice
        del: selfPlay.simps)
qed

lemma newGame_board: "gameBoard (newGame d) = [None, None, None, None, None, None, None, None, None]"
  by (simp add: newGame_def numeral_eq_Suc)

lemma newGame_literal:
  "newGame d = \<lparr> gameBoard = [None, None, None, None, None, None, None, None, None],
                 gameWinner = InProgress, gameDifficulty = d \<rparr>"
  by (simp add: newGame_def numeral_eq_Suc)

lemma holdable_new: "holdable (newGame Hard)"
proof -
  have "checkWinner (gameBoard (newGame Hard)) = InProgress"
    unfolding newGame_board by (simp add: checkWinner9)
  moreover have "canHold (gameBoard (newGame Hard))"
    using canHold_new by (simp add: newGame_def)
  ultimately show ?thesis by (simp add: holdable_def newGame_def)
qed

lemma easy_center:
  assumes "random 8 = 1"
  shows "chooseMove [None, None, None, None, Some MarkX, None, None, None, None] Easy random
           = Val 1"
proof -
  let ?b = "[None, None, None, None, Some MarkX, None, None, None, None] :: player list"
  have e: "emptyCells ?b = [0, 1, 2, 3, 5, 6, 7, 8]"
    by (simp add: emptyCells_def upt_conv_Cons)
  have l: "length (emptyCells ?b) = 8" unfolding e by simp
  have "chooseMove ?b Easy random = elemAt (emptyCells ?b) (random (length (emptyCells ?b)))"
    by (simp add: chooseMove_def)
  also have "\<dots> = elemAt [0, 1, 2, 3, 5, 6, 7, 8] 1" unfolding l assms unfolding e ..
  also have "\<dots> = Val 1" by (simp add: elemAt_def)
  finally show ?thesis .
qed

lemma hard_after_corner:
  "chooseMove [Some MarkX, Some MarkO, None, None, Some MarkX, None, None, None, None] Hard random = Val 8"
  by (simp add: eval_defs)

lemma hard_after_fork:
  "chooseMove [Some MarkX, Some MarkO, None, None, Some MarkX, None, Some MarkX, None, Some MarkO] Hard random = Val 2"
  by (simp add: eval_defs)

lemmas press_eval = handleCellPress_def Let_def elemAt9 update9 checkWinner9 snd_getAIMove
  storeOf_simps newGame_literal

lemma press_easy:
  "handleCellPress (\<lambda>n. 1) (newGame Easy) 4
     = Some \<lparr> gameBoard = edgeReply, gameWinner = InProgress, gameDifficulty = Easy \<rparr>"
  by (simp add: press_eval easy_center edgeReply_def)

lemma press_corner:
  "handleCellPress random \<lparr> gameBoard = edgeReply, gameWinner = InProgress, gameDifficulty = Hard \<rparr> 0
     = Some \<lparr> gameBoard = [Some MarkX, Some MarkO, None, None, Some MarkX, None, None, None,
                             Some MarkO],
              gameWinner = InProgress, gameDifficulty = Hard \<rparr>"
  by (simp add: press_eval hard_after_corner edgeReply_def)

lemma press_fork:
  "handleCellPress random \<lparr> gameBoard = [Some MarkX, Some MarkO, None, None, Some MarkX, None,
                                          None, None, Some MarkO],
                           gameWinner = InProgress, gameDifficulty = Hard \<rparr> 6
     = Some \<lparr> gameBoard = [Some MarkX, Some MarkO, Some MarkO, None, Some MarkX, None,
                             Some MarkX, None, Some MarkO],
              gameWinner = InProgress, gameDifficulty = Hard \<rparr>"
  by (simp add: press_eval hard_after_fork)

lemma press_win:
  "handleCellPress random \<lparr> gameBoard = [Some MarkX, Some MarkO, Some MarkO, None, Some MarkX,
                                          None, Some MarkX, None, Some MarkO],
                           gameWinner = InProgress, gameDifficulty = Hard \<rparr> 3
     = Some \<lparr> gameBoard = lostBoard, gameWinner = Win MarkX, gameDifficulty = Hard \<rparr>"
  by (simp add: press_eval lostBoard_def)

text \<open>
  Claim C3 as stated, from any reachable legal position, fails: the position
  \<open>. O . / . X . / . . .\<close> is reached when the first reply is drawn at difficulty easy;
  with the difficulty then set to hard, \<open>'X'\<close> plays 0, 6 and 3 and wins, the computer
  having blocked at 8 and at 2.
\<close>

theorem hard_loses_lost_position:
  "handleCellPress (\<lambda>n. 1) (newGame Easy) 4
     = Some \<lparr> gameBoard = edgeReply, gameWinner = InProgress, gameDifficulty = Easy \<rparr>
   \<and> checkWinner edgeReply = InProgress
   \<and> plays (setDifficulty Hard
              \<lparr> gameBoard = edgeReply, gameWinner = InProgress, gameDifficulty = Easy \<rparr>)
            \<lparr> gameBoard = lostBoard, gameWinner = Win MarkX, gameDifficulty = Hard \<rparr>"
proof -
  let ?g0 = "\<lparr> gameBoard = edgeReply, gameWinner = InProgress, gameDifficulty = Hard \<rparr>"
  have "plays ?g0 ?g0" by (rule plays.start)
  from plays.press [OF this _ press_corner [of "\<lambda>n. 0"]]
  have "plays ?g0 \<lparr> gameBoard = [Some MarkX, Some MarkO, None, None, Some MarkX, None, None,
                                    None, Some MarkO],
                     gameWinner = InProgress, gameDifficulty = Hard \<rparr>"
    by (simp add: edgeReply_def)
  from plays.press [OF this _ press_fork [of "\<lambda>n. 0"]]
  have "plays ?g0 \<lparr> gameBoard = [Some MarkX, Some MarkO, Some MarkO, None, Some MarkX, None,
                                    Some MarkX, None, Some MarkO],
                     gameWinner = InProgress, gameDifficulty = Hard \<rparr>"
    by simp
  from plays.press [OF this _ press_win [of "\<lambda>n. 0"]]
  have "plays ?g0 \<lparr> gameBoard = lostBoard, gameWinner = Win MarkX, gameDifficulty = Hard \<rparr>"
    by simp
  moreover have "checkWinner edgeReply = InProgress"
    by (simp add: edgeReply_def checkWinner9)
  ultimately show ?thesis using press_easy by (simp add: setDifficulty_def)
qed

lemma never_throws:
  assumes "holdable g" "index < 9"
  shows "handleCellPress random g index \<noteq> None"
  using press_keeps_holdable [OF assms, of random] by auto

text \<open>
  Claim C3, as amended. In every game played from the empty board, and more generally
  from every position, \<open>'X'\<close> to move, from which \<open>'O'\<close> can still avoid defeat (minimax
  value at least 0), in which \<open>'O'\<close> moves at difficulty hard against any legal sequence
  of moves of \<open>'X'\<close>, the winner is never \<open>'X'\<close>, and the reply of the computer never
  fails. In particular, from the empty board with \<open>'X'\<close> opening in the centre and both
  sides playing the choice of \<open>getAIMove\<close> at difficulty hard, the game ends, after eight
  more moves, in the draw \<open>O X O / X X O / X O X\<close>.
\<close>

theorem hard_never_loses:
  assumes "plays g0 g" and "holdable g0"
  shows "gameWinner g \<noteq> Win MarkX
       \<and> (\<forall>index < 9. \<forall>random. handleCellPress random g index \<noteq> None)
       \<and> holdable (newGame Hard)
       \<and> (\<forall>n. selfPlay (8 + n) MarkO centerX = Some drawnBoard)
       \<and> checkWinner drawnBoard = Draw"
proof -
  from plays_holdable [OF assms] have h: "holdable g" .
  have "checkWinner drawnBoard = Draw" by (simp add: drawnBoard_def checkWinner9)
  with h holdable_not_lost [OF h] never_throws [OF h] holdable_new selfPlay_game
  show ?thesis by simp
qed

theorem hard_never_loses_witness:
  "plays (newGame Hard)
     \<lparr> gameBoard = [Some MarkO, None, None, None, Some MarkX, None, None, None, None],
       gameWinner = InProgress, gameDifficulty = Hard \<rparr>
   \<and> gameWinner \<lparr> gameBoard = [Some MarkO, None, None, None, Some MarkX, None, None, None, None],
                  gameWinner = InProgress, gameDifficulty = Hard \<rparr> \<noteq> Win MarkX
   \<and> selfPlay 8 MarkO centerX = Some drawnBoard"
proof -
  let ?g = "\<lparr> gameBoard = [Some MarkO, None, None, None, Some MarkX, None, None, None, None],
              gameWinner = InProgress, gameDifficulty = Hard \<rparr>"
  have p: "handleCellPress (\<lambda>n. 0) (newGame Hard) 4 = Some ?g"
    by (simp add: press_eval b1_choice)
  have "plays (newGame Hard) (newGame Hard)" by (rule plays.start)
  from plays.press [OF this _ p] have pl: "plays (newGame Hard) ?g"
    by (simp add: newGame_board)
  from hard_never_loses [OF pl holdable_new]
  have "gameWinner ?g \<noteq> Win MarkX" "selfPlay (8 + 0) MarkO centerX = Some drawnBoard"
    by blast+
  with pl show ?thesis by simp
qed

end
